theory Spec2Isabelle
  imports Complex_Main "HOL-Library.Sublist"
begin

section \<open>Text primitives of the scraper\<close>

text \<open>
  Texts returned by \<open>inner_text()\<close> are modelled as \<open>string\<close>; a \<open>char\<close> stands for the
  code point of the same number, so the texts of the model are the texts over the code
  points below 256. On these the functions below are Python's \<open>str\<close> methods, code point
  by code point; upper-casing leaves that range for two letters, so it returns code points.
\<close>

text \<open>\<open>c.isspace()\<close>, the whitespace \<open>strip()\<close> removes: TAB to CR, FS to US, space, NEL, NBSP.\<close>

definition py_isspace :: "char \<Rightarrow> bool" where
  "py_isspace c = (let n = (of_char c :: nat) in
     (9 \<le> n \<and> n \<le> 13) \<or> (28 \<le> n \<and> n \<le> 32) \<or> n = 133 \<or> n = 160)"

text \<open>\<open>c.isdigit()\<close>: the decimal digits and the superscripts two, three and one.\<close>

definition py_isdigit_char :: "char \<Rightarrow> bool" where
  "py_isdigit_char c = (let n = (of_char c :: nat) in
     (48 \<le> n \<and> n \<le> 57) \<or> n = 178 \<or> n = 179 \<or> n = 185)"

text \<open>\<open>c.isdecimal()\<close>, the digits \<open>int()\<close> accepts.\<close>

definition py_isdecimal_char :: "char \<Rightarrow> bool" where
  "py_isdecimal_char c = (let n = (of_char c :: nat) in 48 \<le> n \<and> n \<le> 57)"

definition digit_val :: "char \<Rightarrow> nat" where
  "digit_val c = (of_char c :: nat) - 48"

text \<open>\<open>s.strip()\<close>: leading and trailing whitespace removed.\<close>

definition py_strip :: "string \<Rightarrow> string" where
  "py_strip s = rev (dropWhile py_isspace (rev (dropWhile py_isspace s)))"

text \<open>\<open>s.replace(c, '')\<close> and \<open>s.replace(c, d)\<close> for one-character patterns.\<close>

definition py_remove :: "char \<Rightarrow> string \<Rightarrow> string" where
  "py_remove c s = filter (\<lambda>x. x \<noteq> c) s"

definition py_replace_char :: "char \<Rightarrow> char \<Rightarrow> string \<Rightarrow> string" where
  "py_replace_char c d s = map (\<lambda>x. if x = c then d else x) s"

text \<open>
  \<open>s.upper()\<close>, as code points: a to z and the accented small letters move down by 32,
  sharp s becomes SS, micro becomes U+039C, y with diaeresis becomes U+0178, the division
  sign and every other code point stay.
\<close>

definition py_upper_char :: "char \<Rightarrow> nat list" where
  "py_upper_char c = (let n = (of_char c :: nat) in
     if 97 \<le> n \<and> n \<le> 122 then [n - 32]
     else if n = 181 then [924]
     else if n = 223 then [83, 83]
     else if 224 \<le> n \<and> n \<le> 254 \<and> n \<noteq> 247 then [n - 32]
     else if n = 255 then [376]
     else [n])"

definition py_upper :: "string \<Rightarrow> nat list" where
  "py_upper s = concat (map py_upper_char s)"

text \<open>The code points of a literal of the source, such as \<open>'LOCATION'\<close>.\<close>

definition codes :: "string \<Rightarrow> nat list" where
  "codes s = map of_char s"

text \<open>\<open>' '.join(xs)\<close>.\<close>

fun py_join_space :: "string list \<Rightarrow> string" where
  "py_join_space [] = []"
| "py_join_space [x] = x"
| "py_join_space (x # y # ys) = x @ CHR '' '' # py_join_space (y # ys)"

text \<open>\<open>sub in s\<close>: substring test.\<close>

fun py_in :: "'a list \<Rightarrow> 'a list \<Rightarrow> bool" where
  "py_in sub [] = (sub = [])"
| "py_in sub (c # cs) = (prefix sub (c # cs) \<or> py_in sub cs)"

text \<open>\<open>s.isdigit()\<close>: non-empty and every character a digit.\<close>

definition py_isdigit :: "string \<Rightarrow> bool" where
  "py_isdigit s = (s \<noteq> [] \<and> list_all py_isdigit_char s)"

text \<open>
  \<open>int(s)\<close> on a string, base 10; \<open>None\<close> is the \<open>ValueError\<close>. At both ends \<open>int\<close> drops
  TAB to CR, space, NEL and NBSP (not FS to US, which \<open>strip()\<close> does drop). Then one
  optional sign, then decimal digits in which a single underscore may stand between two
  digits. A literal of more than 4300 digits is refused (the interpreter's default limit
  on integer string conversion, which the program does not change).
\<close>

definition int_space :: "char \<Rightarrow> bool" where
  "int_space c = (let n = (of_char c :: nat) in
     (9 \<le> n \<and> n \<le> 13) \<or> n = 32 \<or> n = 133 \<or> n = 160)"

definition int_strip :: "string \<Rightarrow> string" where
  "int_strip s = rev (dropWhile int_space (rev (dropWhile int_space s)))"

fun int_digits :: "nat \<Rightarrow> string \<Rightarrow> nat option" where
  "int_digits acc [] = Some acc"
| "int_digits acc [c] = (if py_isdecimal_char c then Some (10 * acc + digit_val c) else None)"
| "int_digits acc (c # d # ds) =
     (if py_isdecimal_char c then int_digits (10 * acc + digit_val c) (d # ds)
      else if c = CHR ''_'' \<and> py_isdecimal_char d then int_digits (10 * acc + digit_val d) ds
      else None)"

definition int_unsigned :: "string \<Rightarrow> nat option" where
  "int_unsigned s = (case s of [] \<Rightarrow> None
     | c # cs \<Rightarrow> if py_isdecimal_char c then int_digits (digit_val c) cs else None)"

definition max_str_digits :: nat where
  "max_str_digits = 4300"

definition int_signed :: "string \<Rightarrow> int option" where
  "int_signed s = (case s of [] \<Rightarrow> None
     | c # cs \<Rightarrow>
        if c = CHR ''-'' then map_option (\<lambda>n. - int n) (int_unsigned cs)
        else if c = CHR ''+'' then map_option int (int_unsigned cs)
        else map_option int (int_unsigned (c # cs)))"

definition py_int :: "string \<Rightarrow> int option" where
  "py_int s0 = (let s = int_strip s0 in
     if max_str_digits < length (filter py_isdecimal_char s) then None else int_signed s)"

section \<open>IEEE double arithmetic used by the threshold\<close>

text \<open>
  \<open>int(len(rows) * 0.05)\<close> multiplies in binary64. The literal \<open>0.05\<close> is the double
  \<open>3602879701896397 / 2^56\<close>; the product of two doubles is the exact product rounded to
  53 significant bits, ties to even; \<open>int()\<close> truncates.
\<close>

fun bitlen :: "nat \<Rightarrow> nat" where
  "bitlen n = (if n = 0 then 0 else Suc (bitlen (n div 2)))"

declare bitlen.simps [simp del]

definition round53 :: "nat \<Rightarrow> nat" where
  "round53 m = (let b = bitlen m in
     if b \<le> 53 then m
     else let s = b - 53; q = m div 2 ^ s; r = m mod 2 ^ s; h = 2 ^ (s - 1)
          in (if h < r \<or> (r = h \<and> odd q) then q + 1 else q) * 2 ^ s)"

definition double_0_05 :: nat where
  "double_0_05 = 3602879701896397"

definition int_mul_0_05 :: "nat \<Rightarrow> nat" where
  "int_mul_0_05 n = round53 (round53 n * double_0_05) div 2 ^ 56"

section \<open>The page: cells, rows, tables\<close>

record cell =
  inner_text :: string
  location_name_p :: "string option"

text \<open>A plain cell: its text, no nested \<open>p.location-name\<close> element.\<close>

definition td :: "string \<Rightarrow> cell" where
  "td s = \<lparr>inner_text = s, location_name_p = None\<rparr>"

type_synonym row = "cell list"

record table_dom =
  th_texts :: "string list"
  tbody_trs :: "row list"
  all_trs :: "row list"

text \<open>
  Every failure of \<open>scrape_table\<close> is a \<open>ValueError\<close>; the constructors tell them apart by
  where they are raised. \<open>InvalidLiteral\<close> is the one \<open>int()\<close> raises itself, with the text
  it was given.
\<close>

datatype error =
    TableNotFound
  | TableNotPopulated
  | MissingColumns "string list"
  | NoValidData
  | InvalidLiteral string

datatype event =
    Screenshot string
  | QueryRows nat
  | Sleep nat
  | QueryCells nat
  | Warning string

section \<open>TablePoller\<close>

text \<open>Row collection of one attempt: \<open>tbody tr\<close>, else every \<open>tr\<close> holding a \<open>td\<close>.\<close>

definition collect_rows :: "table_dom \<Rightarrow> row list" where
  "collect_rows t = (let rows = tbody_trs t in
     if length rows = 0 then filter (\<lambda>r. r \<noteq> []) (all_trs t) else rows)"

text \<open>
  The test \<open>cleaned.isdigit() and int(cleaned) > 0\<close> of one data cell. It stands outside
  any \<open>try\<close>: when \<open>isdigit()\<close> holds and \<open>int()\<close> raises, the error leaves the poll loop.
\<close>

definition cell_nonzero :: "cell \<Rightarrow> error + bool" where
  "cell_nonzero c = (let cleaned = py_remove CHR '','' (py_strip (inner_text c)) in
     if py_isdigit cleaned then
       (case py_int cleaned of
          None \<Rightarrow> Inl (InvalidLiteral cleaned)
        | Some v \<Rightarrow> Inr (0 < v))
     else Inr False)"

fun count_cells :: "cell list \<Rightarrow> nat \<Rightarrow> error + nat" where
  "count_cells [] cnt = Inr cnt"
| "count_cells (c # cs) cnt =
     (case cell_nonzero c of
        Inl e \<Rightarrow> Inl e
      | Inr nonzero \<Rightarrow> count_cells cs (if nonzero then cnt + 1 else cnt))"

fun count_rows :: "row list \<Rightarrow> nat \<Rightarrow> error + nat" where
  "count_rows [] cnt = Inr cnt"
| "count_rows (r # rs) cnt =
     (if 1 < length r then
        (case count_cells (tl r) cnt of
           Inl e \<Rightarrow> Inl e
         | Inr cnt' \<Rightarrow> count_rows rs cnt')
      else count_rows rs cnt)"

definition total_nonzero :: "row list \<Rightarrow> error + nat" where
  "total_nonzero rows = count_rows rows 0"

definition threshold :: "row list \<Rightarrow> nat" where
  "threshold rows = max 10 (int_mul_0_05 (length rows))"

text \<open>
  What one attempt makes of its rows: the flag \<open>has_real_data\<close>, or the error of a cell
  test. No rows at all is "table empty", not populated.
\<close>

definition has_real_data :: "row list \<Rightarrow> error + bool" where
  "has_real_data rows =
     (if 0 < length rows then
        (case total_nonzero rows of
           Inl e \<Rightarrow> Inl e
         | Inr n \<Rightarrow> Inr (threshold rows \<le> n))
      else Inr False)"

definition max_retries :: nat where
  "max_retries = 20"

text \<open>
  The poll loop \<open>for attempt in range(max_retries)\<close>; \<open>table_at attempt\<close> is the table
  as that attempt reads it. A successful result carries the attempt index at the
  \<open>break\<close> and the rows of that attempt; the events are the row queries, the sleeps and
  the screenshot, in order. An error of the cell test ends the loop at once, with no
  sleep and no screenshot.
\<close>

fun poll_loop :: "(nat \<Rightarrow> table_dom) \<Rightarrow> nat \<Rightarrow> nat \<Rightarrow> (error + nat \<times> row list) \<times> event list" where
  "poll_loop table_at attempt 0 = (Inl TableNotPopulated, [Screenshot ''empty_table_debug.png''])"
| "poll_loop table_at attempt (Suc remaining) =
     (let rows = collect_rows (table_at attempt) in
      case has_real_data rows of
        Inl e \<Rightarrow> (Inl e, [QueryRows attempt])
      | Inr populated \<Rightarrow>
          if populated then (Inr (attempt, rows), [QueryRows attempt])
          else (case poll_loop table_at (Suc attempt) remaining of
                  (res, evs) \<Rightarrow> (res, QueryRows attempt # Sleep 3 # evs)))"

definition table_poller :: "(nat \<Rightarrow> table_dom) \<Rightarrow> (error + nat \<times> row list) \<times> event list" where
  "table_poller table_at = poll_loop table_at 0 max_retries"

section \<open>TableLocator\<close>

text \<open>
  The frames of the page, each with its tables in document order. A table is the target
  when it has header cells whose texts, joined by single spaces and upper-cased, contain
  both markers. The handle returned is the position (frame, table) of the match.
\<close>

definition is_target :: "table_dom \<Rightarrow> bool" where
  "is_target t = (let header_texts = th_texts t in
     if header_texts \<noteq> [] then
       (let header_clean = py_upper (py_join_space header_texts) in
        py_in (codes ''LOCATION'') header_clean \<and> py_in (codes ''FOLLOW'') header_clean)
     else False)"

fun scan_tables :: "table_dom list \<Rightarrow> nat \<Rightarrow> nat option" where
  "scan_tables [] j = None"
| "scan_tables (t # ts) j = (if is_target t then Some j else scan_tables ts (Suc j))"

fun scan_frames :: "table_dom list list \<Rightarrow> nat \<Rightarrow> (nat \<times> nat) option" where
  "scan_frames [] idx = None"
| "scan_frames (tables # frames) idx =
     (case scan_tables tables 0 of
        Some j \<Rightarrow> Some (idx, j)
      | None \<Rightarrow> scan_frames frames (Suc idx))"

definition table_locator :: "table_dom list list \<Rightarrow> (error + nat \<times> nat) \<times> event list" where
  "table_locator frames = (case scan_frames frames 0 of
       None \<Rightarrow> (Inl TableNotFound, [Screenshot ''no_table_found.png''])
     | Some pos \<Rightarrow> (Inr pos, []))"

section \<open>RowExtractor\<close>

record col_idx =
  location_idx :: "nat option"
  followup_idx :: "nat option"
  unprocessed_idx :: "nat option"

record extracted =
  location :: string
  followups :: int
  unprocessed :: int

definition h_clean :: "string \<Rightarrow> nat list" where
  "h_clean h = py_upper (py_strip (py_replace_char (CHR 0x0A) CHR '' '' h))"

text \<open>
  The loop \<open>for i, h in enumerate(header_texts)\<close>; \<open>match_header\<close> is its body, three
  independent tests, so a later match overwrites an earlier one.
\<close>

definition match_header :: "string \<Rightarrow> nat \<Rightarrow> col_idx \<Rightarrow> col_idx" where
  "match_header h i ix =
     (let hc = h_clean h;
          ix1 = (if py_in (codes ''LOCATION'') hc then ix\<lparr>location_idx := Some i\<rparr> else ix);
          ix2 = (if py_in (codes ''FOLLOW-UP'') hc \<or> py_in (codes ''FOLLOW UP'') hc
                 then ix1\<lparr>followup_idx := Some i\<rparr> else ix1)
      in (if py_in (codes ''UNPROCESSED'') hc then ix2\<lparr>unprocessed_idx := Some i\<rparr> else ix2))"

fun find_columns :: "string list \<Rightarrow> nat \<Rightarrow> col_idx \<Rightarrow> col_idx" where
  "find_columns [] i ix = ix"
| "find_columns (h # hs) i ix = find_columns hs (Suc i) (match_header h i ix)"

definition no_columns :: col_idx where
  "no_columns = \<lparr>location_idx = None, followup_idx = None, unprocessed_idx = None\<rparr>"

definition location_text :: "cell \<Rightarrow> string" where
  "location_text location_cell = (case location_name_p location_cell of
       Some p \<Rightarrow> py_strip p
     | None \<Rightarrow> py_strip (inner_text location_cell))"

definition numeric_clean :: "cell \<Rightarrow> string" where
  "numeric_clean c = py_remove CHR '' '' (py_remove CHR '','' (py_strip (inner_text c)))"

text \<open>
  The loop \<open>for row in rows\<close>; \<open>k\<close> is the position of the row. A row that is too short
  is passed over silently; a row whose counts do not parse leaves a warning.
\<close>

fun extract_rows :: "nat \<Rightarrow> nat \<Rightarrow> nat \<Rightarrow> row list \<Rightarrow> nat \<Rightarrow> extracted list \<times> event list" where
  "extract_rows li fi ui [] k = ([], [])"
| "extract_rows li fi ui (cells # rest) k =
     (case extract_rows li fi ui rest (Suc k) of (data, evs) \<Rightarrow>
        if max (max li fi) ui < length cells then
          (let loc = location_text (cells ! li) in
           case py_int (numeric_clean (cells ! fi)) of
             None \<Rightarrow> (data, QueryCells k # Warning loc # evs)
           | Some followups_int \<Rightarrow>
              (case py_int (numeric_clean (cells ! ui)) of
                 None \<Rightarrow> (data, QueryCells k # Warning loc # evs)
               | Some unprocessed_int \<Rightarrow>
                   (\<lparr>location = loc, followups = followups_int,
                     unprocessed = unprocessed_int\<rparr> # data,
                    QueryCells k # evs)))
        else (data, QueryCells k # evs))"

definition row_extractor :: "string list \<Rightarrow> row list \<Rightarrow> (error + extracted list) \<times> event list" where
  "row_extractor header_texts rows =
     (let ix = find_columns header_texts 0 no_columns in
      if location_idx ix = None \<or> followup_idx ix = None \<or> unprocessed_idx ix = None
      then (Inl (MissingColumns header_texts), [])
      else (case extract_rows (the (location_idx ix)) (the (followup_idx ix))
                   (the (unprocessed_idx ix)) rows 0 of
              (data, evs) \<Rightarrow> if data = [] then (Inl NoValidData, evs) else (Inr data, evs)))"

section \<open>scrape_table\<close>

text \<open>
  Locate, poll, read the headers of the located table, extract. \<open>table_at pos attempt\<close>
  is the table at position \<open>pos\<close> as poll attempt \<open>attempt\<close> reads it; the headers are read
  right after the successful attempt.
\<close>

definition scrape_table ::
  "table_dom list list \<Rightarrow> (nat \<times> nat \<Rightarrow> nat \<Rightarrow> table_dom) \<Rightarrow> (error + extracted list) \<times> event list" where
  "scrape_table frames table_at =
     (case table_locator frames of
        (Inl e, evs) \<Rightarrow> (Inl e, evs)
      | (Inr pos, evs) \<Rightarrow>
          (case table_poller (table_at pos) of
             (Inl e, evs2) \<Rightarrow> (Inl e, evs @ evs2)
           | (Inr (attempt, rows), evs2) \<Rightarrow>
               (case row_extractor (th_texts (table_at pos attempt)) rows of
                  (res, evs3) \<Rightarrow> (res, evs @ evs2 @ evs3))))"

section \<open>SnapshotWriter\<close>

text \<open>
  The database as the run sees it: the rows persisted, the inserts pending in the open
  transaction, and the log of what was sent to the connection. The stored procedure is
  external: \<open>sp idx record\<close> is the outcome of the call for the record numbered \<open>idx\<close>. The
  call (with \<open>fetchone\<close>) raises, or yields no row, or yields \<open>(InsertedID, Lcode)\<close> with
  an absent or present code. A call that yields a row has inserted it; for the other two
  outcomes the flag tells whether an insert was made. \<open>commit\<close> and \<open>rollback\<close> themselves
  are taken to succeed.
\<close>

datatype sp_result = SpRaises bool | SpNoRow bool | SpRow int "string option"

datatype db_op = ExecTruncate | ExecInsert nat | Commit | Rollback

record save_state =
  committed :: "(nat \<times> extracted) list"
  pending :: "(nat \<times> extracted) list"
  inserted :: nat
  failed :: nat
  locations_without_lcode :: "string list"
  db_log :: "db_op list"

fun leaves_insert :: "sp_result \<Rightarrow> bool" where
  "leaves_insert (SpRaises wrote) = wrote"
| "leaves_insert (SpNoRow wrote) = wrote"
| "leaves_insert (SpRow inserted_id lcode) = True"

text \<open>\<open>cursor.execute("EXEC Testing.GetOutstandingCPFollowUps ...")\<close> with its \<open>fetchone\<close>.\<close>

definition execute_sp :: "sp_result \<Rightarrow> nat \<Rightarrow> extracted \<Rightarrow> save_state \<Rightarrow> save_state" where
  "execute_sp res idx record st =
     st\<lparr>pending := (if leaves_insert res then pending st @ [(idx, record)] else pending st),
        db_log := db_log st @ [ExecInsert idx]\<rparr>"

definition commit :: "save_state \<Rightarrow> save_state" where
  "commit st = st\<lparr>committed := committed st @ pending st, pending := [],
                  db_log := db_log st @ [Commit]\<rparr>"

definition rollback :: "save_state \<Rightarrow> save_state" where
  "rollback st = st\<lparr>pending := [], db_log := db_log st @ [Rollback]\<rparr>"

text \<open>The body of the loop \<open>for idx, record in enumerate(data, 1)\<close>.\<close>

definition save_record :: "(nat \<Rightarrow> extracted \<Rightarrow> sp_result) \<Rightarrow> nat \<Rightarrow> extracted \<Rightarrow> save_state \<Rightarrow> save_state" where
  "save_record sp idx record st =
     (let res = sp idx record;
          st1 = execute_sp res idx record st
      in case res of
           SpRaises wrote \<Rightarrow>
             (let st2 = rollback st1 in st2\<lparr>failed := failed st2 + 1\<rparr>)
         | SpNoRow wrote \<Rightarrow> st1
         | SpRow inserted_id lcode \<Rightarrow>
             (case lcode of
                None \<Rightarrow>
                  (let st2 = st1\<lparr>locations_without_lcode :=
                                    locations_without_lcode st1 @ [location record]\<rparr>;
                       st3 = rollback st2
                   in st3\<lparr>failed := failed st3 + 1\<rparr>)
              | Some code \<Rightarrow> commit (st1\<lparr>inserted := inserted st1 + 1\<rparr>)))"

fun save_loop :: "(nat \<Rightarrow> extracted \<Rightarrow> sp_result) \<Rightarrow> nat \<Rightarrow> extracted list \<Rightarrow> save_state \<Rightarrow> save_state" where
  "save_loop sp idx [] st = st"
| "save_loop sp idx (record # rest) st = save_loop sp (Suc idx) rest (save_record sp idx record st)"

datatype db_error = TruncateFailed

text \<open>
  \<open>save_to_database\<close>: truncate and commit, then the loop. A failing truncate is re-raised
  before any record is written.
\<close>

definition after_truncate :: save_state where
  "after_truncate = \<lparr>committed = [], pending = [], inserted = 0, failed = 0,
       locations_without_lcode = [], db_log = [ExecTruncate, Commit]\<rparr>"

definition save_to_database ::
  "bool \<Rightarrow> (nat \<Rightarrow> extracted \<Rightarrow> sp_result) \<Rightarrow> extracted list \<Rightarrow> db_error + save_state" where
  "save_to_database truncate_ok sp data =
     (if \<not> truncate_ok then Inl TruncateFailed
      else Inr (save_loop sp 1 data after_truncate))"

section \<open>The specification's wording\<close>

text \<open>
  The populated test as the specification words it: a data cell counts when its cleaned
  text is a non-negative integer literal greater than zero, and the count must reach
  \<open>max(10, ceil(0.05 * rowCount))\<close>.
\<close>

definition positive_literal :: "string \<Rightarrow> bool" where
  "positive_literal s = (s \<noteq> [] \<and> list_all py_isdecimal_char s \<and> list_ex (\<lambda>c. c \<noteq> CHR ''0'') s)"

definition data_cells :: "row list \<Rightarrow> cell list" where
  "data_cells rows = concat (map tl rows)"

definition nonzero_count :: "row list \<Rightarrow> nat" where
  "nonzero_count rows =
     length (filter (\<lambda>c. positive_literal (py_remove CHR '','' (py_strip (inner_text c))))
               (data_cells rows))"

definition spec_threshold :: "nat \<Rightarrow> nat" where
  "spec_threshold row_count = max 10 (nat \<lceil>(5 / 100) * real row_count\<rceil>)"

definition spec_populated :: "row list \<Rightarrow> bool" where
  "spec_populated rows = (spec_threshold (length rows) \<le> nonzero_count rows)"

text \<open>
  A cleaned text on which the cell test cannot raise: if it passes \<open>isdigit()\<close> it is made
  of decimal digits only, at most 4300 of them.
\<close>

definition int_safe :: "string \<Rightarrow> bool" where
  "int_safe s = (\<not> py_isdigit s \<or> (list_all py_isdecimal_char s \<and> length s \<le> max_str_digits))"

definition cells_int_safe :: "row list \<Rightarrow> bool" where
  "cells_int_safe rows =
     list_all (\<lambda>c. int_safe (py_remove CHR '','' (py_strip (inner_text c)))) (data_cells rows)"

text \<open>
  The records of a run with the numbers \<open>enumerate(data, idx)\<close> gives them, and the two
  answers of the stored procedure that carry a location code: absent, present.
\<close>

definition enumerate_from :: "nat \<Rightarrow> extracted list \<Rightarrow> (nat \<times> extracted) list" where
  "enumerate_from idx data = zip [idx..<idx + length data] data"

fun lcode_absent :: "sp_result \<Rightarrow> bool" where
  "lcode_absent (SpRow inserted_id None) = True"
| "lcode_absent res = False"

fun lcode_present :: "sp_result \<Rightarrow> bool" where
  "lcode_present (SpRow inserted_id (Some code)) = True"
| "lcode_present res = False"

text \<open>What the connection is sent for one record, by the outcome of its call.\<close>

fun record_ops :: "sp_result \<Rightarrow> nat \<Rightarrow> db_op list" where
  "record_ops (SpRow inserted_id None) idx = [ExecInsert idx, Rollback]"
| "record_ops (SpRow inserted_id (Some code)) idx = [ExecInsert idx, Commit]"
| "record_ops (SpRaises wrote) idx = [ExecInsert idx, Rollback]"
| "record_ops (SpNoRow wrote) idx = [ExecInsert idx]"

text \<open>
  The locator's target as the specification words it: the header texts, joined and
  upper-cased, contain LOCATION and contain FOLLOW.
\<close>

definition qualifies :: "table_dom \<Rightarrow> bool" where
  "qualifies t = (sublist (codes ''LOCATION'') (py_upper (py_join_space (th_texts t)))
      \<and> sublist (codes ''FOLLOW'') (py_upper (py_join_space (th_texts t))))"

text \<open>
  The three header markers as the specification words them, over the newline-normalized,
  trimmed, upper-cased header text; "contains" is the contiguous-sublist relation.
\<close>

definition is_location_header :: "string \<Rightarrow> bool" where
  "is_location_header h = sublist (codes ''LOCATION'') (h_clean h)"

definition is_followup_header :: "string \<Rightarrow> bool" where
  "is_followup_header h =
     (sublist (codes ''FOLLOW-UP'') (h_clean h) \<or> sublist (codes ''FOLLOW UP'') (h_clean h))"

definition is_unprocessed_header :: "string \<Rightarrow> bool" where
  "is_unprocessed_header h = sublist (codes ''UNPROCESSED'') (h_clean h)"

definition marker_unmatched :: "string list \<Rightarrow> bool" where
  "marker_unmatched hs = (list_all (\<lambda>h. \<not> is_location_header h) hs
      \<or> list_all (\<lambda>h. \<not> is_followup_header h) hs
      \<or> list_all (\<lambda>h. \<not> is_unprocessed_header h) hs)"

text \<open>
  A row yields a record when it is long enough for the three indices and both counts
  parse; the record it yields.
\<close>

definition row_parses :: "nat \<Rightarrow> nat \<Rightarrow> nat \<Rightarrow> row \<Rightarrow> bool" where
  "row_parses li fi ui cells = (max (max li fi) ui < length cells
      \<and> py_int (numeric_clean (cells ! fi)) \<noteq> None
      \<and> py_int (numeric_clean (cells ! ui)) \<noteq> None)"

definition row_record :: "nat \<Rightarrow> nat \<Rightarrow> nat \<Rightarrow> row \<Rightarrow> extracted" where
  "row_record li fi ui cells =
     \<lparr>location = location_text (cells ! li),
      followups = the (py_int (numeric_clean (cells ! fi))),
      unprocessed = the (py_int (numeric_clean (cells ! ui)))\<rparr>"

text \<open>
  Reading the poller's events: the number of attempts and of sleeps, and the events of a
  run whose first \<open>n\<close> attempts all fail, each followed by its sleep.
\<close>

fun is_attempt :: "event \<Rightarrow> bool" where
  "is_attempt (QueryRows i) = True"
| "is_attempt e = False"

fun is_sleep :: "event \<Rightarrow> bool" where
  "is_sleep (Sleep d) = True"
| "is_sleep e = False"

definition attempts :: "event list \<Rightarrow> nat" where
  "attempts evs = length (filter is_attempt evs)"

definition sleeps :: "event list \<Rightarrow> nat" where
  "sleeps evs = length (filter is_sleep evs)"

definition failed_attempts :: "nat \<Rightarrow> nat \<Rightarrow> event list" where
  "failed_attempts a n = concat (map (\<lambda>i. [QueryRows i, Sleep 3]) [a..<a + n])"

text \<open>What attempt \<open>i\<close> makes of the table it reads.\<close>

definition check_at :: "(nat \<Rightarrow> table_dom) \<Rightarrow> nat \<Rightarrow> error + bool" where
  "check_at table_at i = has_real_data (collect_rows (table_at i))"




section \<open>The truncated double product is the integer quotient\<close>

lemma bitlen_le: "n < 2 ^ b \<Longrightarrow> bitlen n \<le> b"
proof (induction b arbitrary: n)
  case 0
  then show ?case by (simp add: bitlen.simps)
next
  case (Suc b)
  show ?case
  proof (cases "n = 0")
    case True
    then show ?thesis by (simp add: bitlen.simps)
  next
    case False
    from Suc.prems have "n div 2 < 2 ^ b" by simp
    from Suc.IH[OF this] False show ?thesis by (subst bitlen.simps) simp
  qed
qed

lemma bitlen_gt: "b < bitlen n \<Longrightarrow> 2 ^ b \<le> n"
proof (induction b arbitrary: n)
  case 0
  then show ?case by (cases "n = 0") (simp_all add: bitlen.simps)
next
  case (Suc b)
  have n0: "n \<noteq> 0" using Suc.prems by (cases "n = 0") (simp_all add: bitlen.simps)
  then have "bitlen n = Suc (bitlen (n div 2))" by (subst bitlen.simps) simp
  with Suc.prems have "b < bitlen (n div 2)" by simp
  from Suc.IH[OF this] show ?case by simp
qed

lemma round53_small: "n < 2 ^ 53 \<Longrightarrow> round53 n = n"
  using bitlen_le[of n 53] by (simp add: round53_def Let_def)

lemma round_bracket:
  fixes m P k n :: nat
  assumes P: "2 * h = P" and Pdvd: "P * c = 2 ^ 56" and Pbound: "P \<le> 2 ^ 49"
    and n: "n < 2 ^ 50" and m: "20 * m = n * 2 ^ 56 + 4 * n"
  shows "((if h < m mod P \<or> (m mod P = h \<and> odd (m div P)) then m div P + 1 else m div P) * P) div 2 ^ 56 = n div 20"
proof -
  define k where "k = n div 20"
  define f where "f = n mod 20"
  have nkf: "n = 20 * k + f" and f: "f < 20" by (simp_all add: k_def f_def)
  define q where "q = m div P"
  define r where "r = m mod P"
  have mqr: "m = q * P + r" by (simp add: q_def r_def)
  have Ppos: "0 < P" using Pdvd by (cases "P = 0") simp_all
  have rP: "r < P" using Ppos by (simp add: r_def)
  have lowm: "k * 2 ^ 56 \<le> m" using m nkf by simp
  have kP: "k * 2 ^ 56 = (k * c) * P" using Pdvd by (simp add: mult.assoc mult.commute)
  have "k * c \<le> q"
  proof -
    have "(k * c) * P \<le> m" using lowm unfolding kP .
    then have "(k * c) * P div P \<le> m div P" by (rule div_le_mono)
    then show ?thesis using Ppos by (simp add: q_def)
  qed
  then have "(k * c) * P \<le> q * P" by (rule mult_le_mono1)
  then have lowq: "k * 2 ^ 56 \<le> q * P" unfolding kP .
  have upm: "20 * m + 2 ^ 56 \<le> 20 * (k + 1) * 2 ^ 56 + 4 * n" using m nkf f by simp
  let ?R = "(if h < r \<or> (r = h \<and> odd q) then q + 1 else q) * P"
  have lowR: "k * 2 ^ 56 \<le> ?R" using lowq by (simp add: algebra_simps)
  have upR: "?R < (k + 1) * 2 ^ 56"
  proof (cases "h < r \<or> (r = h \<and> odd q)")
    case False
    then have "?R = q * P" by auto
    also have "\<dots> \<le> m" using mqr by simp
    also have "m < (k + 1) * 2 ^ 56" using upm n by simp
    finally show ?thesis .
  next
    case True
    then have hr: "h \<le> r" by auto
    from True have "?R = q * P + P" by (simp add: algebra_simps)
    also have "\<dots> \<le> m + h" using mqr hr P by simp
    also have "\<dots> \<le> m + 2 ^ 48" using P Pbound by simp
    also have "\<dots> < (k + 1) * 2 ^ 56" using upm n by simp
    finally show ?thesis .
  qed
  have "?R div 2 ^ 56 = k"
    using lowR upR by (intro div_nat_eqI) (simp_all add: algebra_simps)
  then show ?thesis unfolding q_def r_def k_def .
qed

lemma int_mul_0_05_floor:
  assumes n: "n < 2 ^ 50"
  shows "int_mul_0_05 n = n div 20"
proof -
  define m where "m = n * double_0_05"
  have m20: "20 * m = n * 2 ^ 56 + 4 * n" by (simp add: m_def double_0_05_def)
  have rn: "round53 n = n" using n by (intro round53_small) simp
  have mlt: "m < 2 ^ 102"
  proof -
    have "20 * m < 20 * 2 ^ 102" using m20 n by simp
    then show ?thesis by simp
  qed
  show ?thesis
  proof (cases "bitlen m \<le> 53")
    case True
    then have r: "round53 m = m" by (simp add: round53_def)
    have "n = 20 * (n div 20) + n mod 20" by simp
    then have "20 * m = 20 * (n div 20) * 2 ^ 56 + (n mod 20) * 2 ^ 56 + 4 * n"
      using m20 by (metis distrib_right)
    moreover have "n mod 20 < 20" by simp
    ultimately have "(n div 20) * 2 ^ 56 \<le> m" and "m < (n div 20 + 1) * 2 ^ 56"
      using n by simp_all
    then have "m div 2 ^ 56 = n div 20"
      by (intro div_nat_eqI) (simp_all add: algebra_simps)
    then have "round53 m div 2 ^ 56 = n div 20" by (simp only: r)
    then show ?thesis by (simp add: int_mul_0_05_def rn m_def)
  next
    case False
    define s where "s = bitlen m - 53"
    have s1: "1 \<le> s" using False by (simp add: s_def)
    have "bitlen m \<le> 102" using mlt by (rule bitlen_le)
    then have s49: "s \<le> 49" by (simp add: s_def)
    have h: "2 * 2 ^ (s - 1) = (2::nat) ^ s" using s1 by (cases s) simp_all
    have c: "(2::nat) ^ s * 2 ^ (56 - s) = 2 ^ 56"
      using s49 by (simp flip: power_add)
    have b: "(2::nat) ^ s \<le> 2 ^ 49" using s49 by (intro power_increasing) simp_all
    have "round53 m = (if 2 ^ (s - 1) < m mod 2 ^ s \<or> (m mod 2 ^ s = 2 ^ (s - 1) \<and> odd (m div 2 ^ s))
                        then m div 2 ^ s + 1 else m div 2 ^ s) * 2 ^ s"
      using False by (simp add: round53_def Let_def s_def)
    then have "round53 m div 2 ^ 56 = n div 20"
      using round_bracket[OF h c b n m20] by (simp only:)
    then show ?thesis by (simp add: int_mul_0_05_def rn m_def)
  qed
qed

section \<open>RowExtractor: the worked example\<close>

lemmas text_defs = h_clean_def py_upper_def py_upper_char_def codes_def py_strip_def py_isspace_def
  py_replace_char_def

lemmas int_defs = py_int_def int_strip_def int_space_def int_signed_def int_unsigned_def
  py_isdecimal_char_def digit_val_def max_str_digits_def

lemmas eval_defs = row_extractor_def no_columns_def match_header_def text_defs py_remove_def
  location_text_def numeric_clean_def int_defs td_def Let_def

text \<open>
  C3. For the header texts Location, Follow-Ups, Unprocessed and the rows
  (Site A, 10, 3), (Site B, 0, 0), (Site C, N/A, 5), the extractor returns exactly the
  records of Site A and Site B, in that order; the Site C row is skipped with a warning,
  not an error, because N/A does not parse as an integer.
\<close>

theorem C3_worked_example:
  "row_extractor [''Location'', ''Follow-Ups'', ''Unprocessed'']
     [[td ''Site A'', td ''10'', td ''3''],
      [td ''Site B'', td ''0'', td ''0''],
      [td ''Site C'', td ''N/A'', td ''5'']]
   = (Inr [\<lparr>location = ''Site A'', followups = 10, unprocessed = 3\<rparr>,
           \<lparr>location = ''Site B'', followups = 0, unprocessed = 0\<rparr>],
      [QueryCells 0, QueryCells 1, QueryCells 2, Warning ''Site C''])"
  by (simp add: eval_defs)

section \<open>RowExtractor: column resolution\<close>

lemma py_in_sublist: "py_in sub s \<longleftrightarrow> sublist sub s"
  by (induction s) (simp_all add: sublist_Cons_right)

lemma match_header_location:
  "location_idx (match_header h i ix) = (if is_location_header h then Some i else location_idx ix)"
  by (simp add: match_header_def Let_def is_location_header_def py_in_sublist)

lemma match_header_followup:
  "followup_idx (match_header h i ix) = (if is_followup_header h then Some i else followup_idx ix)"
  by (simp add: match_header_def Let_def is_followup_header_def py_in_sublist)

lemma match_header_unprocessed:
  "unprocessed_idx (match_header h i ix) = (if is_unprocessed_header h then Some i else unprocessed_idx ix)"
  by (simp add: match_header_def Let_def is_unprocessed_header_def py_in_sublist)

lemma location_none:
  "location_idx (find_columns hs i ix) = None \<longleftrightarrow>
     location_idx ix = None \<and> list_all (\<lambda>h. \<not> is_location_header h) hs"
  by (induction hs arbitrary: i ix) (simp_all add: match_header_location)

lemma followup_none:
  "followup_idx (find_columns hs i ix) = None \<longleftrightarrow>
     followup_idx ix = None \<and> list_all (\<lambda>h. \<not> is_followup_header h) hs"
  by (induction hs arbitrary: i ix) (simp_all add: match_header_followup)

lemma unprocessed_none:
  "unprocessed_idx (find_columns hs i ix) = None \<longleftrightarrow>
     unprocessed_idx ix = None \<and> list_all (\<lambda>h. \<not> is_unprocessed_header h) hs"
  by (induction hs arbitrary: i ix) (simp_all add: match_header_unprocessed)

lemma missing_iff:
  "(location_idx (find_columns hs 0 no_columns) = None
     \<or> followup_idx (find_columns hs 0 no_columns) = None
     \<or> unprocessed_idx (find_columns hs 0 no_columns) = None) \<longleftrightarrow> marker_unmatched hs"
  by (simp add: location_none followup_none unprocessed_none no_columns_def marker_unmatched_def)

lemma row_extractor_missing:
  "marker_unmatched hs \<Longrightarrow> row_extractor hs rows = (Inl (MissingColumns hs), [])"
  using missing_iff[of hs] by (simp add: row_extractor_def Let_def)

lemma row_extractor_resolved:
  "\<not> marker_unmatched hs \<Longrightarrow> fst (row_extractor hs rows) \<noteq> Inl (MissingColumns seen)"
  using missing_iff[of hs] by (auto simp: row_extractor_def Let_def split: prod.splits)

lemma extract_rows_data:
  "fst (extract_rows li fi ui rows k) = map (row_record li fi ui) (filter (row_parses li fi ui) rows)"
proof (induction rows arbitrary: k)
  case Nil
  show ?case by simp
next
  case (Cons cells rest)
  obtain data evs where e: "extract_rows li fi ui rest (Suc k) = (data, evs)"
    by (cases "extract_rows li fi ui rest (Suc k)")
  with Cons.IH[of "Suc k"] have d: "data = map (row_record li fi ui) (filter (row_parses li fi ui) rest)"
    by simp
  have rp: "row_parses li fi ui cells \<longleftrightarrow> max (max li fi) ui < length cells
      \<and> py_int (numeric_clean (cells ! fi)) \<noteq> None
      \<and> py_int (numeric_clean (cells ! ui)) \<noteq> None"
    by (simp only: row_parses_def)
  have rr: "row_record li fi ui cells = \<lparr>location = location_text (cells ! li),
      followups = the (py_int (numeric_clean (cells ! fi))),
      unprocessed = the (py_int (numeric_clean (cells ! ui)))\<rparr>"
    by (simp only: row_record_def)
  show ?case
  proof (cases "row_parses li fi ui cells")
    case True
    then obtain f u where "max (max li fi) ui < length cells"
      "py_int (numeric_clean (cells ! fi)) = Some f" "py_int (numeric_clean (cells ! ui)) = Some u"
      using rp by auto
    then show ?thesis using True by (simp add: e rr Let_def flip: d)
  next
    case False
    then have "\<not> max (max li fi) ui < length cells
      \<or> py_int (numeric_clean (cells ! fi)) = None
      \<or> py_int (numeric_clean (cells ! ui)) = None" using rp by simp
    then show ?thesis using False
      by (auto simp: e Let_def simp flip: d split: option.splits)
  qed
qed

lemma row_extractor_result:
  assumes "\<not> marker_unmatched hs"
  shows "fst (row_extractor hs rows) =
    (let data = map (row_record (the (location_idx (find_columns hs 0 no_columns)))
                         (the (followup_idx (find_columns hs 0 no_columns)))
                         (the (unprocessed_idx (find_columns hs 0 no_columns))))
                 (filter (row_parses (the (location_idx (find_columns hs 0 no_columns)))
                         (the (followup_idx (find_columns hs 0 no_columns)))
                         (the (unprocessed_idx (find_columns hs 0 no_columns)))) rows)
     in if data = [] then Inl NoValidData else Inr data)"
proof -
  let ?ix = "find_columns hs 0 no_columns"
  have r: "\<not> (location_idx ?ix = None \<or> followup_idx ?ix = None \<or> unprocessed_idx ?ix = None)"
    using assms missing_iff[of hs] by simp
  obtain data evs where e: "extract_rows (the (location_idx ?ix)) (the (followup_idx ?ix))
      (the (unprocessed_idx ?ix)) rows 0 = (data, evs)" by (cases "extract_rows (the (location_idx ?ix)) (the (followup_idx ?ix))
      (the (unprocessed_idx ?ix)) rows 0")
  have d: "data = map (row_record (the (location_idx ?ix)) (the (followup_idx ?ix)) (the (unprocessed_idx ?ix)))
          (filter (row_parses (the (location_idx ?ix)) (the (followup_idx ?ix)) (the (unprocessed_idx ?ix))) rows)"
    using extract_rows_data[of "the (location_idx ?ix)" "the (followup_idx ?ix)" "the (unprocessed_idx ?ix)" rows 0] e
    by simp
  show ?thesis using r e d by (simp add: row_extractor_def Let_def)
qed

lemma never_empty_list: "fst (row_extractor hs rows) \<noteq> Inr []"
  by (auto simp: row_extractor_def Let_def split: prod.splits)

lemmas header_defs = marker_unmatched_def is_location_header_def is_followup_header_def
  is_unprocessed_header_def

text \<open>
  C7. Column resolution fails with MissingColumns, naming the headers seen, if and only
  if at least one of the three markers is unmatched over the cleaned header texts: no
  header contains LOCATION, or none contains FOLLOW-UP or FOLLOW UP, or none contains
  UNPROCESSED. When it fails no data row is read: the event list is empty.
\<close>

theorem C7_missing_columns:
  "((\<exists>seen. fst (row_extractor hs rows) = Inl (MissingColumns seen)) \<longleftrightarrow> marker_unmatched hs)
   \<and> (marker_unmatched hs \<longrightarrow> row_extractor hs rows = (Inl (MissingColumns hs), []))"
  using row_extractor_missing[of hs rows] row_extractor_resolved[of hs rows] by auto

theorem C7_missing_columns_witness:
  "marker_unmatched [''Location'', ''Follow-Ups'']
   \<and> row_extractor [''Location'', ''Follow-Ups''] [[td ''Site A'', td ''10'']]
       = (Inl (MissingColumns [''Location'', ''Follow-Ups'']), [])"
proof -
  have m: "marker_unmatched [''Location'', ''Follow-Ups'']"
    by (simp add: header_defs text_defs flip: py_in_sublist)
  with C7_missing_columns[of "[''Location'', ''Follow-Ups'']" "[[td ''Site A'', td ''10'']]"] show ?thesis by simp
qed

section \<open>RowExtractor: empty results\<close>

text \<open>
  C8. With the columns resolved, if per-row extraction (which drops short rows and rows
  whose counts do not parse) leaves no record, the extractor fails with NoValidData; it
  never returns an empty list.
\<close>

theorem C8_no_valid_data:
  assumes "location_idx (find_columns hs 0 no_columns) = Some li"
    and "followup_idx (find_columns hs 0 no_columns) = Some fi"
    and "unprocessed_idx (find_columns hs 0 no_columns) = Some ui"
  shows "(fst (extract_rows li fi ui rows 0) = [] \<longrightarrow> fst (row_extractor hs rows) = Inl NoValidData)
       \<and> (fst (extract_rows li fi ui rows 0) = [] \<longleftrightarrow> list_all (\<lambda>cells. \<not> row_parses li fi ui cells) rows)
       \<and> fst (row_extractor hs rows) \<noteq> Inr []"
proof -
  have a: "fst (extract_rows li fi ui rows 0) = [] \<longrightarrow> fst (row_extractor hs rows) = Inl NoValidData"
    using assms by (auto simp: row_extractor_def Let_def split: prod.splits)
  have b: "fst (extract_rows li fi ui rows 0) = [] \<longleftrightarrow> list_all (\<lambda>cells. \<not> row_parses li fi ui cells) rows"
    by (simp add: extract_rows_data filter_empty_conv list_all_iff)
  show ?thesis using a b never_empty_list by simp
qed

theorem C8_no_valid_data_witness:
  "fst (row_extractor [''Location'', ''Follow-Ups'', ''Unprocessed'']
         [[td ''Site C'', td ''N/A'', td ''5''], [td ''Total'']]) = Inl NoValidData"
proof -
  let ?hs = "[''Location'', ''Follow-Ups'', ''Unprocessed'']"
  let ?rows = "[[td ''Site C'', td ''N/A'', td ''5''], [td ''Total'']]"
  have 1: "location_idx (find_columns ?hs 0 no_columns) = Some 0" by (simp add: eval_defs)
  have 2: "followup_idx (find_columns ?hs 0 no_columns) = Some 1" by (simp add: eval_defs)
  have 3: "unprocessed_idx (find_columns ?hs 0 no_columns) = Some 2" by (simp add: eval_defs)
  have 4: "fst (extract_rows 0 1 2 ?rows 0) = []" by (simp add: eval_defs)
  from C8_no_valid_data[OF 1 2 3, of ?rows] 4 show ?thesis by simp
qed

section \<open>RowExtractor: the last matching header wins\<close>

lemma find_columns_append:
  "find_columns (xs @ ys) k ix = find_columns ys (k + length xs) (find_columns xs k ix)"
  by (induction xs arbitrary: k ix) simp_all

lemma followup_skip:
  "list_all (\<lambda>h. \<not> is_followup_header h) hs \<Longrightarrow>
   followup_idx (find_columns hs k ix) = followup_idx ix"
  by (induction hs arbitrary: k ix) (simp_all add: match_header_followup)

lemma unprocessed_skip:
  "list_all (\<lambda>h. \<not> is_unprocessed_header h) hs \<Longrightarrow>
   unprocessed_idx (find_columns hs k ix) = unprocessed_idx ix"
  by (induction hs arbitrary: k ix) (simp_all add: match_header_unprocessed)

lemma followup_last:
  assumes "i < length hs" "is_followup_header (hs ! i)"
    and "list_all (\<lambda>h. \<not> is_followup_header h) (drop (Suc i) hs)"
  shows "followup_idx (find_columns hs k ix) = Some (k + i)"
proof -
  have hs: "hs = take i hs @ hs ! i # drop (Suc i) hs"
    using assms(1) by (simp add: id_take_nth_drop)
  have "find_columns hs k ix =
        find_columns (drop (Suc i) hs) (Suc (k + i))
          (match_header (hs ! i) (k + i) (find_columns (take i hs) k ix))"
    using assms(1) by (subst hs) (simp add: find_columns_append min_def)
  then show ?thesis
    using assms(2,3) by (simp add: followup_skip match_header_followup)
qed

lemma unprocessed_last:
  assumes "i < length hs" "is_unprocessed_header (hs ! i)"
    and "list_all (\<lambda>h. \<not> is_unprocessed_header h) (drop (Suc i) hs)"
  shows "unprocessed_idx (find_columns hs k ix) = Some (k + i)"
proof -
  have hs: "hs = take i hs @ hs ! i # drop (Suc i) hs"
    using assms(1) by (simp add: id_take_nth_drop)
  have "find_columns hs k ix =
        find_columns (drop (Suc i) hs) (Suc (k + i))
          (match_header (hs ! i) (k + i) (find_columns (take i hs) k ix))"
    using assms(1) by (subst hs) (simp add: find_columns_append min_def)
  then show ?thesis
    using assms(2,3) by (simp add: unprocessed_skip match_header_unprocessed)
qed

lemma row_record_same:
  "followups (row_record li i i cells) = unprocessed (row_record li i i cells)"
  by (simp add: row_record_def)

text \<open>
  C10, as amended. Column resolution does not require distinct indices and uses the last
  matching header of each marker: when one header contains both a follow-up marker and
  UNPROCESSED, no later header contains either, and some header contains LOCATION, then
  the follow-up and unprocessed indices both resolve to that header's position,
  resolution does not fail, and every extracted record has the same value in both counts.
\<close>

theorem C10_last_match_shared_column:
  assumes i: "i < length hs"
    and both: "is_followup_header (hs ! i)" "is_unprocessed_header (hs ! i)"
    and later: "list_all (\<lambda>h. \<not> is_followup_header h \<and> \<not> is_unprocessed_header h) (drop (Suc i) hs)"
    and loc: "list_ex is_location_header hs"
  shows "followup_idx (find_columns hs 0 no_columns) = Some i
       \<and> unprocessed_idx (find_columns hs 0 no_columns) = Some i
       \<and> (\<forall>seen. fst (row_extractor hs rows) \<noteq> Inl (MissingColumns seen))
       \<and> (\<forall>data. fst (row_extractor hs rows) = Inr data \<longrightarrow>
             list_all (\<lambda>r. followups r = unprocessed r) data)"
proof -
  from later have lf: "list_all (\<lambda>h. \<not> is_followup_header h) (drop (Suc i) hs)"
    and lu: "list_all (\<lambda>h. \<not> is_unprocessed_header h) (drop (Suc i) hs)"
    by (simp_all add: list_all_iff)
  have f: "followup_idx (find_columns hs 0 no_columns) = Some i"
    using followup_last[OF i both(1) lf, of 0 no_columns] by simp
  have u: "unprocessed_idx (find_columns hs 0 no_columns) = Some i"
    using unprocessed_last[OF i both(2) lu, of 0 no_columns] by simp
  have "\<not> list_all (\<lambda>h. \<not> is_followup_header h) hs" "\<not> list_all (\<lambda>h. \<not> is_unprocessed_header h) hs"
    using i both by (auto simp: list_all_iff)
  moreover have "\<not> list_all (\<lambda>h. \<not> is_location_header h) hs"
    using loc by (auto simp: list_all_iff list_ex_iff)
  ultimately have res: "\<not> marker_unmatched hs" by (simp add: marker_unmatched_def)
  have m: "\<forall>seen. fst (row_extractor hs rows) \<noteq> Inl (MissingColumns seen)"
    using row_extractor_resolved[OF res] by simp
  have d: "\<forall>data. fst (row_extractor hs rows) = Inr data \<longrightarrow>
             list_all (\<lambda>r. followups r = unprocessed r) data"
    using row_extractor_result[OF res, of rows]
    by (auto simp: Let_def f u list_all_iff row_record_same split: if_splits)
  show ?thesis using f u m d by simp
qed

theorem C10_last_match_shared_column_witness:
  "followup_idx (find_columns [''Location'', ''Follow-Ups Unprocessed''] 0 no_columns) = Some 1
   \<and> unprocessed_idx (find_columns [''Location'', ''Follow-Ups Unprocessed''] 0 no_columns) = Some 1
   \<and> fst (row_extractor [''Location'', ''Follow-Ups Unprocessed''] [[td ''Site A'', td ''7'']])
       = Inr [\<lparr>location = ''Site A'', followups = 7, unprocessed = 7\<rparr>]"
proof -
  let ?hs = "[''Location'', ''Follow-Ups Unprocessed'']"
  have 1: "(1::nat) < length ?hs" by simp
  have 2: "is_followup_header (?hs ! 1)"
    by (simp add: header_defs text_defs flip: py_in_sublist)
  have 3: "is_unprocessed_header (?hs ! 1)"
    by (simp add: header_defs text_defs flip: py_in_sublist)
  have 4: "list_all (\<lambda>h. \<not> is_followup_header h \<and> \<not> is_unprocessed_header h) (drop (Suc 1) ?hs)"
    by simp
  have 5: "list_ex is_location_header ?hs"
    by (simp add: header_defs text_defs flip: py_in_sublist)
  have 6: "fst (row_extractor ?hs [[td ''Site A'', td ''7'']])
       = Inr [\<lparr>location = ''Site A'', followups = 7, unprocessed = 7\<rparr>]"
    by (simp add: eval_defs)
  from C10_last_match_shared_column[OF 1 2 3 4 5, of "[[td ''Site A'', td ''7'']]"] 6 show ?thesis by simp
qed

text \<open>
  The claim as first stated fails when a later header matches only one of the markers:
  the shared header is at position 1, yet the unprocessed index resolves to 2 and the two
  counts are read from different cells.
\<close>

theorem C10_later_header_counterexample:
  "is_followup_header ([''Location'', ''Follow-Ups Unprocessed'', ''Unprocessed''] ! 1)
   \<and> is_unprocessed_header ([''Location'', ''Follow-Ups Unprocessed'', ''Unprocessed''] ! 1)
   \<and> followup_idx (find_columns [''Location'', ''Follow-Ups Unprocessed'', ''Unprocessed''] 0 no_columns) = Some 1
   \<and> unprocessed_idx (find_columns [''Location'', ''Follow-Ups Unprocessed'', ''Unprocessed''] 0 no_columns) = Some 2
   \<and> row_extractor [''Location'', ''Follow-Ups Unprocessed'', ''Unprocessed'']
        [[td ''Site A'', td ''7'', td ''9'']]
      = (Inr [\<lparr>location = ''Site A'', followups = 7, unprocessed = 9\<rparr>], [QueryCells 0])"
proof -
  let ?hs = "[''Location'', ''Follow-Ups Unprocessed'', ''Unprocessed'']"
  have 1: "is_followup_header (?hs ! 1)"
    by (simp add: header_defs text_defs flip: py_in_sublist)
  have 2: "is_unprocessed_header (?hs ! 1)"
    by (simp add: header_defs text_defs flip: py_in_sublist)
  have 3: "followup_idx (find_columns ?hs 0 no_columns) = Some 1" by (simp add: eval_defs)
  have 4: "unprocessed_idx (find_columns ?hs 0 no_columns) = Some 2" by (simp add: eval_defs)
  have 5: "row_extractor ?hs [[td ''Site A'', td ''7'', td ''9'']]
      = (Inr [\<lparr>location = ''Site A'', followups = 7, unprocessed = 9\<rparr>], [QueryCells 0])"
    by (simp add: eval_defs)
  from 1 2 3 4 5 show ?thesis by (simp only: simp_thms)
qed

section \<open>TableLocator: the first qualifying table\<close>

lemma is_target_qualifies: "is_target t \<longleftrightarrow> qualifies t"
  by (cases "th_texts t")
     (simp_all add: is_target_def qualifies_def Let_def py_in_sublist py_upper_def codes_def)

lemma scan_tables_None: "scan_tables ts j = None \<longleftrightarrow> (\<forall>t\<in>set ts. \<not> qualifies t)"
  by (induction ts arbitrary: j) (simp_all add: is_target_qualifies)

lemma scan_tables_Some:
  "scan_tables ts j = Some k \<longleftrightarrow>
     j \<le> k \<and> k - j < length ts \<and> qualifies (ts ! (k - j)) \<and> (\<forall>i<k - j. \<not> qualifies (ts ! i))"
proof (induction ts arbitrary: j)
  case Nil
  show ?case by simp
next
  case (Cons t ts)
  show ?case
  proof (cases "qualifies t")
    case True
    then have "scan_tables (t # ts) j = Some k \<longleftrightarrow> k = j" by (auto simp: is_target_qualifies)
    also have "\<dots> \<longleftrightarrow> j \<le> k \<and> k - j < length (t # ts) \<and> qualifies ((t # ts) ! (k - j))
        \<and> (\<forall>i<k - j. \<not> qualifies ((t # ts) ! i))"
    proof
      assume "k = j" then show "j \<le> k \<and> k - j < length (t # ts) \<and> qualifies ((t # ts) ! (k - j))
        \<and> (\<forall>i<k - j. \<not> qualifies ((t # ts) ! i))" using True by simp
    next
      assume a: "j \<le> k \<and> k - j < length (t # ts) \<and> qualifies ((t # ts) ! (k - j))
        \<and> (\<forall>i<k - j. \<not> qualifies ((t # ts) ! i))"
      show "k = j"
      proof (rule ccontr)
        assume "k \<noteq> j"
        with a have "0 < k - j" by simp
        with a have "\<not> qualifies ((t # ts) ! 0)" by blast
        with True show False by simp
      qed
    qed
    finally show ?thesis .
  next
    case False
    then have "scan_tables (t # ts) j = Some k \<longleftrightarrow> scan_tables ts (Suc j) = Some k"
      by (simp add: is_target_qualifies)
    also have "\<dots> \<longleftrightarrow> Suc j \<le> k \<and> k - Suc j < length ts \<and> qualifies (ts ! (k - Suc j))
        \<and> (\<forall>i<k - Suc j. \<not> qualifies (ts ! i))" by (rule Cons.IH)
    also have "\<dots> \<longleftrightarrow> j \<le> k \<and> k - j < length (t # ts) \<and> qualifies ((t # ts) ! (k - j))
        \<and> (\<forall>i<k - j. \<not> qualifies ((t # ts) ! i))"
    proof (cases "j < k")
      case lt: True
      then obtain d where d: "k - j = Suc d" "k - Suc j = d" by (cases "k - j") simp_all
      have "(\<forall>i<Suc d. \<not> qualifies ((t # ts) ! i)) \<longleftrightarrow> (\<forall>i<d. \<not> qualifies (ts ! i))"
        using False by (auto simp: less_Suc_eq_0_disj)
      then show ?thesis using lt d by auto
    next
      case ge: False
      then show ?thesis using False by (cases "k = j") auto
    qed
    finally show ?thesis .
  qed
qed


lemma scan_frames_None:
  "scan_frames fs i = None \<longleftrightarrow> (\<forall>ts\<in>set fs. \<forall>t\<in>set ts. \<not> qualifies t)"
proof (induction fs arbitrary: i)
  case Nil
  show ?case by simp
next
  case (Cons ts fs)
  show ?case
  proof (cases "scan_tables ts 0")
    case None
    then show ?thesis using Cons.IH[of "Suc i"] scan_tables_None[of ts 0] by simp
  next
    case (Some k)
    then have "\<not> (\<forall>t\<in>set ts. \<not> qualifies t)" using scan_tables_None[of ts 0] by simp
    with Some show ?thesis by auto
  qed
qed

lemma scan_frames_Some:
  "scan_frames fs i = Some (f, k) \<longleftrightarrow>
     i \<le> f \<and> f - i < length fs \<and> scan_tables (fs ! (f - i)) 0 = Some k
     \<and> (\<forall>g<f - i. scan_tables (fs ! g) 0 = None)"
proof (induction fs arbitrary: i)
  case Nil
  show ?case by simp
next
  case (Cons ts fs)
  show ?case
  proof (cases "scan_tables ts 0")
    case (Some k')
    then have "scan_frames (ts # fs) i = Some (f, k) \<longleftrightarrow> f = i \<and> k = k'" by auto
    also have "\<dots> \<longleftrightarrow> i \<le> f \<and> f - i < length (ts # fs) \<and> scan_tables ((ts # fs) ! (f - i)) 0 = Some k
        \<and> (\<forall>g<f - i. scan_tables ((ts # fs) ! g) 0 = None)"
    proof
      assume "f = i \<and> k = k'"
      then show "i \<le> f \<and> f - i < length (ts # fs) \<and> scan_tables ((ts # fs) ! (f - i)) 0 = Some k
        \<and> (\<forall>g<f - i. scan_tables ((ts # fs) ! g) 0 = None)" using Some by simp
    next
      assume a: "i \<le> f \<and> f - i < length (ts # fs) \<and> scan_tables ((ts # fs) ! (f - i)) 0 = Some k
        \<and> (\<forall>g<f - i. scan_tables ((ts # fs) ! g) 0 = None)"
      have fi: "f = i"
      proof (rule ccontr)
        assume "f \<noteq> i"
        with a have "0 < f - i" by simp
        with a have "scan_tables ((ts # fs) ! 0) 0 = None" by blast
        with Some show False by simp
      qed
      with a Some show "f = i \<and> k = k'" by simp
    qed
    finally show ?thesis .
  next
    case None
    then have "scan_frames (ts # fs) i = Some (f, k) \<longleftrightarrow> scan_frames fs (Suc i) = Some (f, k)"
      by simp
    also have "\<dots> \<longleftrightarrow> Suc i \<le> f \<and> f - Suc i < length fs \<and> scan_tables (fs ! (f - Suc i)) 0 = Some k
        \<and> (\<forall>g<f - Suc i. scan_tables (fs ! g) 0 = None)" by (rule Cons.IH)
    also have "\<dots> \<longleftrightarrow> i \<le> f \<and> f - i < length (ts # fs) \<and> scan_tables ((ts # fs) ! (f - i)) 0 = Some k
        \<and> (\<forall>g<f - i. scan_tables ((ts # fs) ! g) 0 = None)"
    proof (cases "i < f")
      case lt: True
      then obtain d where d: "f - i = Suc d" "f - Suc i = d" by (cases "f - i") simp_all
      have "(\<forall>g<Suc d. scan_tables ((ts # fs) ! g) 0 = None) \<longleftrightarrow> (\<forall>g<d. scan_tables (fs ! g) 0 = None)"
        using None by (auto simp: less_Suc_eq_0_disj)
      then show ?thesis using lt d by auto
    next
      case ge: False
      then show ?thesis using None by (cases "f = i") auto
    qed
    finally show ?thesis .
  qed
qed

text \<open>
  C4. Scanning the frames in order and the tables of a frame in document order, the
  locator returns the position of the first table whose header texts, joined and
  upper-cased, contain LOCATION and FOLLOW: at \<open>(f, j)\<close> the table qualifies, no earlier
  table of frame \<open>f\<close> does and no table of an earlier frame does. When no table of any
  frame qualifies it takes the screenshot and fails with TableNotFound; there is no other
  outcome.
\<close>

theorem C4_first_qualifying_table:
  "(table_locator frames = (Inl TableNotFound, [Screenshot ''no_table_found.png''])
      \<longleftrightarrow> (\<forall>tables\<in>set frames. \<forall>t\<in>set tables. \<not> qualifies t))
   \<and> (table_locator frames = (Inr (f, j), [])
      \<longleftrightarrow> f < length frames \<and> j < length (frames ! f) \<and> qualifies (frames ! f ! j)
          \<and> (\<forall>i<j. \<not> qualifies (frames ! f ! i))
          \<and> (\<forall>g<f. \<forall>t\<in>set (frames ! g). \<not> qualifies t))
   \<and> (table_locator frames = (Inl TableNotFound, [Screenshot ''no_table_found.png''])
        \<or> (\<exists>pos. table_locator frames = (Inr pos, [])))"
proof -
  have A: "table_locator frames = (Inl TableNotFound, [Screenshot ''no_table_found.png''])
      \<longleftrightarrow> (\<forall>tables\<in>set frames. \<forall>t\<in>set tables. \<not> qualifies t)"
    using scan_frames_None[of frames 0] by (auto simp: table_locator_def split: option.splits)
  have "table_locator frames = (Inr (f, j), []) \<longleftrightarrow> scan_frames frames 0 = Some (f, j)"
    by (auto simp: table_locator_def split: option.splits)
  also have "\<dots> \<longleftrightarrow> f < length frames \<and> scan_tables (frames ! f) 0 = Some j
     \<and> (\<forall>g<f. scan_tables (frames ! g) 0 = None)"
    using scan_frames_Some[of frames 0 f j] by simp
  also have "\<dots> \<longleftrightarrow> f < length frames \<and> j < length (frames ! f) \<and> qualifies (frames ! f ! j)
          \<and> (\<forall>i<j. \<not> qualifies (frames ! f ! i))
          \<and> (\<forall>g<f. \<forall>t\<in>set (frames ! g). \<not> qualifies t)"
    by (simp add: scan_tables_Some scan_tables_None)
  finally have B: "table_locator frames = (Inr (f, j), [])
      \<longleftrightarrow> f < length frames \<and> j < length (frames ! f) \<and> qualifies (frames ! f ! j)
          \<and> (\<forall>i<j. \<not> qualifies (frames ! f ! i))
          \<and> (\<forall>g<f. \<forall>t\<in>set (frames ! g). \<not> qualifies t)" .
  have C: "table_locator frames = (Inl TableNotFound, [Screenshot ''no_table_found.png''])
        \<or> (\<exists>pos. table_locator frames = (Inr pos, []))"
    by (simp add: table_locator_def split: option.splits)
  from A B C show ?thesis by blast
qed

lemmas qualifies_eval = qualifies_def py_upper_def py_upper_char_def codes_def

theorem C4_first_qualifying_table_witness:
  "table_locator
     [[\<lparr>th_texts = [], tbody_trs = [], all_trs = []\<rparr>,
       \<lparr>th_texts = [''Location'', ''Calls''], tbody_trs = [], all_trs = []\<rparr>],
      [\<lparr>th_texts = [''Name''], tbody_trs = [], all_trs = []\<rparr>,
       \<lparr>th_texts = [''Location'', ''Follow-Ups'', ''Unprocessed''], tbody_trs = [], all_trs = []\<rparr>,
       \<lparr>th_texts = [''Location Follow''], tbody_trs = [], all_trs = []\<rparr>]]
   = (Inr (1, 1), [])
   \<and> table_locator [[\<lparr>th_texts = [''Wrong'', ''Headers''], tbody_trs = [], all_trs = []\<rparr>]]
   = (Inl TableNotFound, [Screenshot ''no_table_found.png''])"
proof -
  let ?fr = "[[\<lparr>th_texts = [], tbody_trs = [], all_trs = []\<rparr>,
       \<lparr>th_texts = [''Location'', ''Calls''], tbody_trs = [], all_trs = []\<rparr>],
      [\<lparr>th_texts = [''Name''], tbody_trs = [], all_trs = []\<rparr>,
       \<lparr>th_texts = [''Location'', ''Follow-Ups'', ''Unprocessed''], tbody_trs = [], all_trs = []\<rparr>,
       \<lparr>th_texts = [''Location Follow''], tbody_trs = [], all_trs = []\<rparr>]]"
  let ?no = "[[\<lparr>th_texts = [''Wrong'', ''Headers''], tbody_trs = [], all_trs = []\<rparr>]]"
  have q0: "\<not> qualifies \<lparr>th_texts = [], tbody_trs = [], all_trs = []\<rparr>"
    by (simp add: qualifies_eval flip: py_in_sublist)
  have q1: "\<not> qualifies \<lparr>th_texts = [''Location'', ''Calls''], tbody_trs = [], all_trs = []\<rparr>"
    by (simp add: qualifies_eval flip: py_in_sublist)
  have q2: "\<not> qualifies \<lparr>th_texts = [''Name''], tbody_trs = [], all_trs = []\<rparr>"
    by (simp add: qualifies_eval flip: py_in_sublist)
  have q3: "qualifies \<lparr>th_texts = [''Location'', ''Follow-Ups'', ''Unprocessed''], tbody_trs = [], all_trs = []\<rparr>"
    by (simp add: qualifies_eval flip: py_in_sublist)
  have q4: "\<not> qualifies \<lparr>th_texts = [''Wrong'', ''Headers''], tbody_trs = [], all_trs = []\<rparr>"
    by (simp add: qualifies_eval flip: py_in_sublist)
  have a: "table_locator ?fr = (Inr (1, 1), [])"
    using C4_first_qualifying_table[of ?fr 1 1] q0 q1 q2 q3 by (simp add: less_Suc_eq_0_disj)
  have b: "table_locator ?no = (Inl TableNotFound, [Screenshot ''no_table_found.png''])"
    using C4_first_qualifying_table[of ?no 0 0] q4 by simp
  from a b show ?thesis by (rule conjI)
qed

section \<open>SnapshotWriter: records without a location code\<close>

lemma enumerate_from_Nil: "enumerate_from idx [] = []"
  by (simp add: enumerate_from_def)

lemma enumerate_from_Cons: "enumerate_from idx (r # rs) = (idx, r) # enumerate_from (Suc idx) rs"
proof -
  have "[idx..<idx + length (r # rs)] = idx # [Suc idx..<Suc idx + length rs]"
    by (simp add: upt_conv_Cons del: upt_Suc)
  then show ?thesis by (simp only: enumerate_from_def zip_Cons_Cons)
qed

lemmas db_defs = save_record_def execute_sp_def rollback_def commit_def Let_def

lemma save_record_report:
  "locations_without_lcode (save_record sp idx r st) =
     locations_without_lcode st @ (if lcode_absent (sp idx r) then [location r] else [])"
  by (cases "sp idx r" rule: lcode_absent.cases) (simp_all add: db_defs)

lemma save_record_log:
  "db_log (save_record sp idx r st) = db_log st @ record_ops (sp idx r) idx"
  by (cases "sp idx r" rule: lcode_absent.cases) (simp_all add: db_defs)

lemma save_record_absent:
  "lcode_absent (sp idx r) \<Longrightarrow>
   save_record sp idx r st =
     (rollback ((execute_sp (sp idx r) idx r st)
        \<lparr>locations_without_lcode := locations_without_lcode st @ [location r]\<rparr>))
     \<lparr>failed := failed st + 1\<rparr>"
  by (cases "sp idx r" rule: lcode_absent.cases) (simp_all add: db_defs)

lemma execute_sp_pending:
  "lcode_absent res \<Longrightarrow> pending (execute_sp res idx r st) = pending st @ [(idx, r)]"
  by (cases res rule: lcode_absent.cases) (simp_all add: execute_sp_def)

lemma save_record_present:
  "lcode_present (sp idx r) \<Longrightarrow>
   committed (save_record sp idx r st) = committed st @ pending st @ [(idx, r)]
   \<and> pending (save_record sp idx r st) = []"
  by (cases "sp idx r" rule: lcode_present.cases) (simp_all add: db_defs)

lemma save_record_stored:
  "set (committed (save_record sp idx r st)) \<union> set (pending (save_record sp idx r st))
     \<subseteq> set (committed st) \<union> set (pending st) \<union> (if lcode_absent (sp idx r) then {} else {(idx, r)})"
  by (cases "sp idx r" rule: lcode_absent.cases) (auto simp: db_defs)

lemma save_record_committed_mono:
  "set (committed st) \<subseteq> set (committed (save_record sp idx r st))"
  by (cases "sp idx r" rule: lcode_absent.cases) (auto simp: db_defs)


lemma save_loop_report:
  "locations_without_lcode (save_loop sp idx data st) =
     locations_without_lcode st
     @ map (\<lambda>(i, r). location r) (filter (\<lambda>(i, r). lcode_absent (sp i r)) (enumerate_from idx data))"
  by (induction data arbitrary: idx st)
     (simp_all add: enumerate_from_Nil enumerate_from_Cons save_record_report)

lemma save_loop_log:
  "db_log (save_loop sp idx data st) =
     db_log st @ concat (map (\<lambda>(i, r). record_ops (sp i r) i) (enumerate_from idx data))"
  by (induction data arbitrary: idx st)
     (simp_all add: enumerate_from_Nil enumerate_from_Cons save_record_log)

lemma save_loop_committed_mono:
  "set (committed st) \<subseteq> set (committed (save_loop sp idx data st))"
proof (induction data arbitrary: idx st)
  case Nil
  show ?case by simp
next
  case (Cons r rs)
  have "set (committed st) \<subseteq> set (committed (save_record sp idx r st))"
    by (rule save_record_committed_mono)
  also have "\<dots> \<subseteq> set (committed (save_loop sp (Suc idx) rs (save_record sp idx r st)))"
    by (rule Cons.IH)
  finally show ?case by simp
qed

lemma save_loop_stored:
  "set (committed (save_loop sp idx data st)) \<union> set (pending (save_loop sp idx data st))
     \<subseteq> set (committed st) \<union> set (pending st)
        \<union> {p \<in> set (enumerate_from idx data). \<not> lcode_absent (sp (fst p) (snd p))}"
proof (induction data arbitrary: idx st)
  case Nil
  show ?case by (simp add: enumerate_from_Nil)
next
  case (Cons r rs)
  let ?st = "save_record sp idx r st"
  have "set (committed (save_loop sp (Suc idx) rs ?st)) \<union> set (pending (save_loop sp (Suc idx) rs ?st))
     \<subseteq> set (committed ?st) \<union> set (pending ?st)
        \<union> {p \<in> set (enumerate_from (Suc idx) rs). \<not> lcode_absent (sp (fst p) (snd p))}"
    by (rule Cons.IH)
  moreover have "set (committed ?st) \<union> set (pending ?st)
     \<subseteq> set (committed st) \<union> set (pending st) \<union> (if lcode_absent (sp idx r) then {} else {(idx, r)})"
    by (rule save_record_stored)
  moreover have "{p \<in> set (enumerate_from idx (r # rs)). \<not> lcode_absent (sp (fst p) (snd p))}
     = (if lcode_absent (sp idx r) then {} else {(idx, r)})
       \<union> {p \<in> set (enumerate_from (Suc idx) rs). \<not> lcode_absent (sp (fst p) (snd p))}"
    by (auto simp: enumerate_from_Cons)
  ultimately have "set (committed (save_loop sp (Suc idx) rs ?st)) \<union> set (pending (save_loop sp (Suc idx) rs ?st))
     \<subseteq> set (committed st) \<union> set (pending st)
        \<union> {p \<in> set (enumerate_from idx (r # rs)). \<not> lcode_absent (sp (fst p) (snd p))}"
    by blast
  then show ?case by simp
qed

lemma save_loop_present:
  "(i, r) \<in> set (enumerate_from idx data) \<Longrightarrow> lcode_present (sp i r) \<Longrightarrow>
   (i, r) \<in> set (committed (save_loop sp idx data st))"
proof (induction data arbitrary: idx st)
  case Nil
  then show ?case by (simp add: enumerate_from_Nil)
next
  case (Cons x xs)
  from Cons.prems(1) have "(i, r) = (idx, x) \<or> (i, r) \<in> set (enumerate_from (Suc idx) xs)"
    by (simp add: enumerate_from_Cons)
  then show ?case
  proof
    assume e: "(i, r) = (idx, x)"
    then have "(i, r) \<in> set (committed (save_record sp idx x st))"
      using Cons.prems(2) save_record_present[of sp idx x st] by simp
    then show ?thesis using save_loop_committed_mono[of "save_record sp idx x st" sp "Suc idx" xs]
      by auto
  next
    assume "(i, r) \<in> set (enumerate_from (Suc idx) xs)"
    from Cons.IH[OF this Cons.prems(2)] show ?thesis by simp
  qed
qed

text \<open>
  C9. After a run, the without-code report holds, in order, the location name of each
  record whose procedure call returned an absent code, once for each such record. For
  such a record the connection is sent the call and then a rollback, so its insert,
  pending after the call, is neither persisted nor left pending; and the run goes on:
  every record whose call returned a code is committed, wherever it stands in the run.
\<close>

theorem C9_absent_code_rolled_back:
  assumes "save_to_database truncate_ok sp data = Inr st"
  shows "locations_without_lcode st =
           map (\<lambda>(i, r). location r)
             (filter (\<lambda>(i, r). lcode_absent (sp i r)) (enumerate_from 1 data))
       \<and> db_log st = [ExecTruncate, Commit]
             @ concat (map (\<lambda>(i, r). record_ops (sp i r) i) (enumerate_from 1 data))
       \<and> (\<forall>(i, r)\<in>set (enumerate_from 1 data).
             lcode_absent (sp i r) \<longrightarrow> (i, r) \<notin> set (committed st) \<and> (i, r) \<notin> set (pending st))
       \<and> (\<forall>(i, r)\<in>set (enumerate_from 1 data).
             lcode_present (sp i r) \<longrightarrow> (i, r) \<in> set (committed st))"
proof -
  from assms have st: "st = save_loop sp 1 data after_truncate"
    by (simp add: save_to_database_def split: if_splits)
  have a: "locations_without_lcode st =
           map (\<lambda>(i, r). location r)
             (filter (\<lambda>(i, r). lcode_absent (sp i r)) (enumerate_from 1 data))"
    unfolding st by (simp add: save_loop_report after_truncate_def)
  have l: "db_log st = [ExecTruncate, Commit]
             @ concat (map (\<lambda>(i, r). record_ops (sp i r) i) (enumerate_from 1 data))"
    unfolding st by (simp add: save_loop_log after_truncate_def)
  have sub: "set (committed st) \<union> set (pending st)
      \<subseteq> {p \<in> set (enumerate_from 1 data). \<not> lcode_absent (sp (fst p) (snd p))}"
    unfolding st using save_loop_stored[of sp 1 data after_truncate] by (simp add: after_truncate_def)
  have b: "\<forall>(i, r)\<in>set (enumerate_from 1 data).
             lcode_absent (sp i r) \<longrightarrow> (i, r) \<notin> set (committed st) \<and> (i, r) \<notin> set (pending st)"
    using sub by fastforce
  have c: "\<forall>(i, r)\<in>set (enumerate_from 1 data).
             lcode_present (sp i r) \<longrightarrow> (i, r) \<in> set (committed st)"
    unfolding st using save_loop_present[of _ _ 1 data sp after_truncate] by blast
  from a l b c show ?thesis by blast
qed

theorem C9_absent_code_rolled_back_witness:
  "save_to_database True (\<lambda>i r. if i = 2 then SpRow 12 None else SpRow 7 (Some ''L001''))
      [\<lparr>location = ''Site A'', followups = 10, unprocessed = 3\<rparr>,
       \<lparr>location = ''Site B'', followups = 0, unprocessed = 0\<rparr>,
       \<lparr>location = ''Site C'', followups = 4, unprocessed = 5\<rparr>]
    = Inr \<lparr>committed = [(1, \<lparr>location = ''Site A'', followups = 10, unprocessed = 3\<rparr>),
                         (3, \<lparr>location = ''Site C'', followups = 4, unprocessed = 5\<rparr>)],
           pending = [], inserted = 2, failed = 1, locations_without_lcode = [''Site B''],
           db_log = [ExecTruncate, Commit, ExecInsert 1, Commit, ExecInsert 2, Rollback,
                     ExecInsert 3, Commit]\<rparr>
   \<and> locations_without_lcode
        \<lparr>committed = [(1, \<lparr>location = ''Site A'', followups = 10, unprocessed = 3\<rparr>),
                      (3, \<lparr>location = ''Site C'', followups = 4, unprocessed = 5\<rparr>)],
         pending = [], inserted = 2, failed = 1, locations_without_lcode = [''Site B''],
         db_log = [ExecTruncate, Commit, ExecInsert 1, Commit, ExecInsert 2, Rollback,
                   ExecInsert 3, Commit]\<rparr>
      = map (\<lambda>(i, r). location r)
          (filter (\<lambda>(i, r). lcode_absent (if i = 2 then SpRow 12 None else SpRow 7 (Some ''L001'')))
            (enumerate_from 1
              [\<lparr>location = ''Site A'', followups = 10, unprocessed = 3\<rparr>,
               \<lparr>location = ''Site B'', followups = 0, unprocessed = 0\<rparr>,
               \<lparr>location = ''Site C'', followups = 4, unprocessed = 5\<rparr>]))"
proof -
  let ?sp = "\<lambda>(i::nat) (r::extracted). if i = 2 then SpRow 12 None else SpRow 7 (Some ''L001'')"
  let ?data = "[\<lparr>location = ''Site A'', followups = 10, unprocessed = 3\<rparr>,
       \<lparr>location = ''Site B'', followups = 0, unprocessed = 0\<rparr>,
       \<lparr>location = ''Site C'', followups = 4, unprocessed = 5\<rparr>]"
  let ?st = "\<lparr>committed = [(1, \<lparr>location = ''Site A'', followups = 10, unprocessed = 3\<rparr>),
                         (3, \<lparr>location = ''Site C'', followups = 4, unprocessed = 5\<rparr>)],
           pending = [], inserted = 2, failed = 1, locations_without_lcode = [''Site B''],
           db_log = [ExecTruncate, Commit, ExecInsert 1, Commit, ExecInsert 2, Rollback,
                     ExecInsert 3, Commit]\<rparr>"
  have h: "save_to_database True ?sp ?data = Inr ?st"
    by (simp add: save_to_database_def after_truncate_def db_defs)
  from h C9_absent_code_rolled_back[OF h, THEN conjunct1] show ?thesis by (rule conjI)
qed

section \<open>RowExtractor: the fields of a record\<close>









section \<open>Digit strings\<close>

lemma digit_val_zero: "py_isdecimal_char c \<Longrightarrow> digit_val c = 0 \<longleftrightarrow> c = CHR ''0''"
proof -
  assume "py_isdecimal_char c"
  then have "48 \<le> (of_char c :: nat)" by (simp add: py_isdecimal_char_def Let_def)
  then have "digit_val c = 0 \<longleftrightarrow> (of_char c :: nat) = 48"
    by (auto simp: digit_val_def)
  moreover have "(of_char CHR ''0'' :: nat) = 48" by simp
  ultimately have "digit_val c = 0 \<longleftrightarrow> (of_char c :: nat) = of_char CHR ''0''"
    by (simp only:)
  then show ?thesis by (simp only: of_char_eq_iff)
qed

lemma foldl_digits_pos:
  "list_all py_isdecimal_char s \<Longrightarrow>
   0 < foldl (\<lambda>a c. 10 * a + digit_val c) acc s \<longleftrightarrow> 0 < acc \<or> list_ex (\<lambda>c. c \<noteq> CHR ''0'') s"
proof (induction s arbitrary: acc)
  case Nil
  then show ?case by simp
next
  case (Cons c s)
  from Cons.prems have c: "py_isdecimal_char c" and s: "list_all py_isdecimal_char s" by simp_all
  have "0 < foldl (\<lambda>a c. 10 * a + digit_val c) (10 * acc + digit_val c) s
        \<longleftrightarrow> 0 < 10 * acc + digit_val c \<or> list_ex (\<lambda>c. c \<noteq> CHR ''0'') s"
    by (rule Cons.IH[OF s])
  moreover have "0 < 10 * acc + digit_val c \<longleftrightarrow> 0 < acc \<or> c \<noteq> CHR ''0''"
    using digit_val_zero[OF c] by arith
  ultimately show ?case by (simp only: foldl_Cons list_ex_Cons_iff) blast
qed

lemma decimal_not_int_space: "py_isdecimal_char c \<Longrightarrow> \<not> int_space c"
  by (auto simp: py_isdecimal_char_def int_space_def Let_def)

lemma decimal_is_digit: "py_isdecimal_char c \<Longrightarrow> py_isdigit_char c"
  by (auto simp: py_isdecimal_char_def py_isdigit_char_def Let_def)

lemma int_strip_id:
  assumes "s \<noteq> []" "\<not> int_space (hd s)" "\<not> int_space (last s)"
  shows "int_strip s = s"
proof -
  from assms have a: "dropWhile int_space s = s" by (cases s) simp_all
  from assms have "\<not> int_space (hd (rev s))" by (simp add: hd_rev)
  with assms have "dropWhile int_space (rev s) = rev s" by (cases "rev s") simp_all
  with a show ?thesis by (simp add: int_strip_def)
qed

lemma int_strip_decimal:
  assumes "s \<noteq> []" "list_all py_isdecimal_char s"
  shows "int_strip s = s"
proof -
  from assms have "py_isdecimal_char (hd s)" "py_isdecimal_char (last s)"
    by (simp_all add: list_all_iff)
  then show ?thesis using assms(1) by (intro int_strip_id) (simp_all add: decimal_not_int_space)
qed

lemma int_digits_all:
  "list_all py_isdecimal_char s \<Longrightarrow> int_digits acc s = Some (foldl (\<lambda>a c. 10 * a + digit_val c) acc s)"
  by (induction acc s rule: int_digits.induct) simp_all

lemma py_int_decimal:
  assumes ne: "s \<noteq> []" and all: "list_all py_isdecimal_char s" and len: "length s \<le> max_str_digits"
  shows "py_int s = Some (int (foldl (\<lambda>a c. 10 * a + digit_val c) 0 s))"
proof -
  from ne obtain c cs where s: "s = c # cs" by (cases s) simp_all
  from all s have c: "py_isdecimal_char c" and cs: "list_all py_isdecimal_char cs" by simp_all
  have sign: "c \<noteq> CHR ''-''" "c \<noteq> CHR ''+''" using c by (auto simp: py_isdecimal_char_def)
  have f: "filter py_isdecimal_char s = s" using all by (simp add: list_all_iff)
  have "int_signed s = Some (int (foldl (\<lambda>a c. 10 * a + digit_val c) 0 s))"
    using sign c cs by (simp add: int_signed_def s int_unsigned_def int_digits_all)
  then show ?thesis using len by (simp add: py_int_def Let_def int_strip_decimal[OF ne all] f)
qed

lemma cell_nonzero_safe:
  assumes "int_safe (py_remove CHR '','' (py_strip (inner_text c)))"
  shows "cell_nonzero c = Inr (positive_literal (py_remove CHR '','' (py_strip (inner_text c))))"
proof -
  define t where "t = py_remove CHR '','' (py_strip (inner_text c))"
  from assms have safe: "int_safe t" by (simp only: t_def)
  have "cell_nonzero c = Inr (positive_literal t)"
  proof (cases "py_isdigit t")
    case True
    then have ne: "t \<noteq> []" by (simp add: py_isdigit_def)
    from True safe have all: "list_all py_isdecimal_char t" and len: "length t \<le> max_str_digits"
      by (simp_all add: int_safe_def)
    have "cell_nonzero c = Inr (0 < foldl (\<lambda>a c. 10 * a + digit_val c) 0 t)"
      using True by (simp add: cell_nonzero_def py_int_decimal[OF ne all len] flip: t_def)
    also have "(0 < foldl (\<lambda>a c. 10 * a + digit_val c) 0 t) = list_ex (\<lambda>c. c \<noteq> CHR ''0'') t"
      using foldl_digits_pos[OF all, of 0] by simp
    also have "\<dots> = positive_literal t"
      using all ne by (simp add: positive_literal_def)
    finally show ?thesis .
  next
    case False
    then have "cell_nonzero c = Inr False" by (simp add: cell_nonzero_def flip: t_def)
    moreover have "\<not> positive_literal t"
    proof
      assume "positive_literal t"
      then have "t \<noteq> []" "list_all py_isdecimal_char t" by (simp_all add: positive_literal_def)
      then have "py_isdigit t" by (auto simp: py_isdigit_def list_all_iff decimal_is_digit)
      with False show False by simp
    qed
    ultimately show ?thesis by simp
  qed
  then show ?thesis by (simp only: t_def)
qed

lemma count_cells_safe:
  "list_all (\<lambda>c. int_safe (py_remove CHR '','' (py_strip (inner_text c)))) cs \<Longrightarrow>
   count_cells cs n = Inr (n + length (filter
      (\<lambda>c. positive_literal (py_remove CHR '','' (py_strip (inner_text c)))) cs))"
  by (induction cs arbitrary: n) (simp_all add: cell_nonzero_safe)

lemma count_rows_safe:
  "cells_int_safe rows \<Longrightarrow>
   count_rows rows n = Inr (n + length (filter
      (\<lambda>c. positive_literal (py_remove CHR '','' (py_strip (inner_text c)))) (data_cells rows)))"
proof (induction rows arbitrary: n)
  case Nil
  then show ?case by (simp add: data_cells_def)
next
  case (Cons r rs)
  from Cons.prems have r: "list_all (\<lambda>c. int_safe (py_remove CHR '','' (py_strip (inner_text c)))) (tl r)"
    and rs: "cells_int_safe rs" by (simp_all add: cells_int_safe_def data_cells_def)
  have short: "\<not> 1 < length r \<Longrightarrow> tl r = []" by (cases r) simp_all
  show ?case
    using Cons.IH[OF rs] short by (auto simp: count_cells_safe[OF r] data_cells_def)
qed

lemma total_nonzero_safe: "cells_int_safe rows \<Longrightarrow> total_nonzero rows = Inr (nonzero_count rows)"
  by (simp add: total_nonzero_def count_rows_safe nonzero_count_def)

section \<open>The cell test: when it counts, when it raises\<close>

lemma int_digits_chars:
  "int_digits acc s = Some v \<Longrightarrow> \<forall>c\<in>set s. py_isdecimal_char c \<or> c = CHR ''_''"
  by (induction acc s arbitrary: v rule: int_digits.induct) (auto split: if_splits)

lemma int_unsigned_chars:
  "int_unsigned s = Some v \<Longrightarrow> \<forall>c\<in>set s. py_isdecimal_char c \<or> c = CHR ''_''"
  by (cases s) (auto simp: int_unsigned_def split: if_splits dest: int_digits_chars)

lemma digit_not_int_space: "py_isdigit_char c \<Longrightarrow> \<not> int_space c"
  by (auto simp: py_isdigit_char_def int_space_def Let_def)

lemma digit_not_sign: "py_isdigit_char c \<Longrightarrow> c \<noteq> CHR ''-'' \<and> c \<noteq> CHR ''+'' \<and> c \<noteq> CHR ''_''"
  by (auto simp: py_isdigit_char_def Let_def)

lemma py_int_unsafe:
  assumes d: "py_isdigit s" and u: "\<not> (list_all py_isdecimal_char s \<and> length s \<le> max_str_digits)"
  shows "py_int s = None"
proof -
  from d have ne: "s \<noteq> []" and all: "\<forall>c\<in>set s. py_isdigit_char c"
    by (simp_all add: py_isdigit_def list_all_iff)
  from ne all have "py_isdigit_char (hd s)" "py_isdigit_char (last s)" by simp_all
  then have strip: "int_strip s = s"
    using ne by (intro int_strip_id) (simp_all add: digit_not_int_space)
  show ?thesis
  proof (cases "list_all py_isdecimal_char s")
    case True
    then have "filter py_isdecimal_char s = s" by (simp add: list_all_iff)
    with True u show ?thesis by (simp add: py_int_def Let_def strip)
  next
    case False
    then obtain x where x: "x \<in> set s" "\<not> py_isdecimal_char x" by (auto simp: list_all_iff)
    with all have xu: "x \<noteq> CHR ''_''" using digit_not_sign by blast
    from ne obtain c cs where s: "s = c # cs" by (cases s) simp_all
    with all have "c \<noteq> CHR ''-''" "c \<noteq> CHR ''+''" using digit_not_sign by auto
    then have "int_signed s = map_option int (int_unsigned s)" by (simp add: int_signed_def s)
    moreover have "int_unsigned s = None"
    proof (cases "int_unsigned s")
      case None
      then show ?thesis .
    next
      case (Some v)
      from int_unsigned_chars[OF this] x xu show ?thesis by blast
    qed
    ultimately have "int_signed s = None" by simp
    then show ?thesis by (simp add: py_int_def Let_def strip)
  qed
qed

lemma cell_nonzero_unsafe:
  assumes "\<not> int_safe (py_remove CHR '','' (py_strip (inner_text c)))"
  shows "cell_nonzero c = Inl (InvalidLiteral (py_remove CHR '','' (py_strip (inner_text c))))"
proof -
  from assms have d: "py_isdigit (py_remove CHR '','' (py_strip (inner_text c)))"
    and u: "\<not> (list_all py_isdecimal_char (py_remove CHR '','' (py_strip (inner_text c)))
        \<and> length (py_remove CHR '','' (py_strip (inner_text c))) \<le> max_str_digits)"
    by (auto simp: int_safe_def)
  show ?thesis using d py_int_unsafe[OF d u] by (simp add: cell_nonzero_def)
qed

lemma count_cells_unsafe:
  "\<not> list_all (\<lambda>c. int_safe (py_remove CHR '','' (py_strip (inner_text c)))) cs \<Longrightarrow>
   isl (count_cells cs n)"
proof (induction cs arbitrary: n)
  case Nil
  then show ?case by simp
next
  case (Cons c cs)
  show ?case
  proof (cases "int_safe (py_remove CHR '','' (py_strip (inner_text c)))")
    case True
    with Cons.prems have "\<not> list_all (\<lambda>c. int_safe (py_remove CHR '','' (py_strip (inner_text c)))) cs"
      by simp
    from Cons.IH[OF this] show ?thesis by (simp add: cell_nonzero_safe[OF True])
  next
    case False
    then show ?thesis by (simp add: cell_nonzero_unsafe)
  qed
qed

lemma count_rows_unsafe: "\<not> cells_int_safe rows \<Longrightarrow> isl (count_rows rows n)"
proof (induction rows arbitrary: n)
  case Nil
  then show ?case by (simp add: cells_int_safe_def data_cells_def)
next
  case (Cons r rs)
  have short: "\<not> 1 < length r \<Longrightarrow> tl r = []" by (cases r) simp_all
  show ?case
  proof (cases "list_all (\<lambda>c. int_safe (py_remove CHR '','' (py_strip (inner_text c)))) (tl r)")
    case True
    with Cons.prems have "\<not> cells_int_safe rs" by (simp add: cells_int_safe_def data_cells_def)
    from Cons.IH[OF this] show ?thesis by (simp add: count_cells_safe[OF True])
  next
    case False
    have "1 < length r"
    proof (rule ccontr)
      assume "\<not> 1 < length r"
      then have "tl r = []" by (rule short)
      with False show False by simp
    qed
    then show ?thesis using count_cells_unsafe[OF False, of n] by (auto split: sum.splits)
  qed
qed

lemma has_real_data_iff_safe:
  "rows \<noteq> [] \<Longrightarrow> isl (has_real_data rows) \<longleftrightarrow> \<not> cells_int_safe rows"
proof (cases "cells_int_safe rows")
  case True
  assume "rows \<noteq> []"
  with True show ?thesis by (simp add: has_real_data_def total_nonzero_safe)
next
  case False
  assume "rows \<noteq> []"
  with False count_rows_unsafe[OF False, of 0] show ?thesis
    by (auto simp: has_real_data_def total_nonzero_def split: sum.splits)
qed

section \<open>TablePoller: the populated threshold\<close>

lemma spec_threshold_201: "spec_threshold 201 = 11"
proof -
  have "(5 / 100) * real 201 = 201 / 20" by simp
  moreover have "\<lceil>(201::real) / 20\<rceil> = 11" by (simp add: ceiling_eq_iff)
  ultimately show ?thesis by (simp add: spec_threshold_def)
qed

lemma spec_threshold_1: "spec_threshold 1 = 10"
proof -
  have "\<lceil>(5::real) / 100\<rceil> = 1" by (simp add: ceiling_eq_iff)
  then show ?thesis by (simp add: spec_threshold_def)
qed

lemma data_cells_append: "data_cells (xs @ ys) = data_cells xs @ data_cells ys"
  by (simp add: data_cells_def)

lemma data_cells_replicate: "data_cells (replicate n [a, b]) = replicate n b"
  by (simp add: data_cells_def)

lemmas cleaned_defs = py_remove_def py_strip_def py_isspace_def td_def

lemma positive_literal_1: "positive_literal (py_remove CHR '','' (py_strip (inner_text (td ''1''))))"
  by (simp add: positive_literal_def cleaned_defs py_isdecimal_char_def)

lemma positive_literal_5: "positive_literal (py_remove CHR '','' (py_strip (inner_text (td ''5''))))"
  by (simp add: positive_literal_def cleaned_defs py_isdecimal_char_def)

lemma positive_literal_0: "\<not> positive_literal (py_remove CHR '','' (py_strip (inner_text (td ''0''))))"
  by (simp add: positive_literal_def cleaned_defs py_isdecimal_char_def)

lemma int_safe_one_digit:
  "py_isdecimal_char d \<Longrightarrow> int_safe (py_remove CHR '','' (py_strip (inner_text (td [d]))))"
proof -
  assume d: "py_isdecimal_char d"
  then have "\<not> py_isspace d" "d \<noteq> CHR '',''"
    by (auto simp: py_isdecimal_char_def py_isspace_def Let_def)
  then have "py_remove CHR '','' (py_strip (inner_text (td [d]))) = [d]"
    by (simp add: py_remove_def py_strip_def td_def)
  with d show ?thesis by (simp add: int_safe_def max_str_digits_def)
qed

lemma nonzero_count_201:
  "nonzero_count (replicate 10 [td ''Site'', td ''1''] @ replicate 191 [td ''Site'', td ''0'']) = 10"
  by (simp add: nonzero_count_def data_cells_append data_cells_replicate filter_replicate
      positive_literal_1 positive_literal_0)

lemma int_safe_201:
  "cells_int_safe (replicate 10 [td ''Site'', td ''1''] @ replicate 191 [td ''Site'', td ''0''])"
proof -
  have "int_safe (py_remove CHR '','' (py_strip (inner_text (td ''1''))))"
    by (rule int_safe_one_digit) (simp add: py_isdecimal_char_def)
  moreover have "int_safe (py_remove CHR '','' (py_strip (inner_text (td ''0''))))"
    by (rule int_safe_one_digit) (simp add: py_isdecimal_char_def)
  ultimately show ?thesis
    by (simp add: cells_int_safe_def data_cells_append data_cells_replicate list_all_iff)
qed

lemma ten_cells_safe: "cells_int_safe [td ''Site A'' # replicate 10 (td ''5'')]"
proof -
  have "int_safe (py_remove CHR '','' (py_strip (inner_text (td ''5''))))"
    by (rule int_safe_one_digit) (simp add: py_isdecimal_char_def)
  then show ?thesis by (simp add: cells_int_safe_def data_cells_def list_all_iff)
qed

lemma ten_cells_count: "nonzero_count [td ''Site A'' # replicate 10 (td ''5'')] = 10"
  using positive_literal_5 by (simp add: nonzero_count_def data_cells_def)

lemma ten_cells_populated:
  "has_real_data [td ''Site A'' # replicate 10 (td ''5'')] = Inr True"
  by (simp add: has_real_data_def threshold_def int_mul_0_05_floor
      total_nonzero_safe[OF ten_cells_safe] ten_cells_count)

lemma no_rows_not_populated: "has_real_data [] = Inr False"
  by (simp add: has_real_data_def)

text \<open>
  C1, as amended. On every attempt whose collected row list is non-empty (and shorter
  than \<open>2^50\<close> rows, where the double product is shown exact) and on which no data cell
  makes the cell test raise, the table is deemed populated if and only if the number of
  data cells (all cells of a row but the first) whose cleaned text is a string of decimal
  digits with a non-zero digit is at least \<open>max(10, floor(0.05 * rowCount))\<close>.
\<close>

theorem C1_populated_threshold:
  assumes "rows \<noteq> []" and "length rows < 2 ^ 50" and "cells_int_safe rows"
  shows "has_real_data rows = Inr (max 10 (length rows div 20) \<le> nonzero_count rows)"
  using assms by (simp add: has_real_data_def threshold_def int_mul_0_05_floor total_nonzero_safe)

theorem C1_populated_threshold_witness:
  "has_real_data [td ''Site A'' # replicate 10 (td ''5'')]
     = Inr (max 10 (length [td ''Site A'' # replicate 10 (td ''5'')] div 20)
             \<le> nonzero_count [td ''Site A'' # replicate 10 (td ''5'')])"
proof -
  let ?rows = "[td ''Site A'' # replicate 10 (td ''5'')]"
  have 1: "?rows \<noteq> []" by simp
  have 2: "length ?rows < 2 ^ 50" by simp
  from C1_populated_threshold[OF 1 2 ten_cells_safe] show ?thesis .
qed

text \<open>
  The claim as first stated, with the ceiling, fails at 201 rows of which 10 hold a
  non-zero count: the code's threshold is \<open>max(10, int(10.05)) = 10\<close> and the table is
  deemed populated, while \<open>max(10, ceil(10.05)) = 11\<close> is not reached.
\<close>

theorem C1_ceiling_counterexample:
  "has_real_data (replicate 10 [td ''Site'', td ''1''] @ replicate 191 [td ''Site'', td ''0''])
     = Inr True
   \<and> \<not> spec_threshold (length (replicate 10 [td ''Site'', td ''1''] @ replicate 191 [td ''Site'', td ''0'']))
        \<le> nonzero_count (replicate 10 [td ''Site'', td ''1''] @ replicate 191 [td ''Site'', td ''0''])"
proof -
  let ?rows = "replicate 10 [td ''Site'', td ''1''] @ replicate 191 [td ''Site'', td ''0'']"
  have l: "length ?rows = 201" by simp
  have t: "threshold ?rows = 10" by (simp add: threshold_def int_mul_0_05_floor)
  have "has_real_data ?rows = Inr True"
    unfolding has_real_data_def total_nonzero_safe[OF int_safe_201] nonzero_count_201 t l by simp
  moreover have "\<not> spec_threshold (length ?rows) \<le> nonzero_count ?rows"
    unfolding nonzero_count_201 l spec_threshold_201 by simp
  ultimately show ?thesis by (rule conjI)
qed

section \<open>TablePoller: the poll loop\<close>

lemma failed_attempts_0: "failed_attempts a 0 = []"
  by (simp add: failed_attempts_def)

lemma failed_attempts_Suc:
  "failed_attempts a (Suc n) = QueryRows a # Sleep 3 # failed_attempts (Suc a) n"
  by (simp add: failed_attempts_def upt_rec[of a])

lemma poll_loop_fail:
  "(\<forall>j<n. check_at table_at (a + j) = Inr False) \<Longrightarrow>
   poll_loop table_at a n =
     (Inl TableNotPopulated, failed_attempts a n @ [Screenshot ''empty_table_debug.png''])"
proof (induction n arbitrary: a)
  case 0
  show ?case by (simp add: failed_attempts_0)
next
  case (Suc n)
  from Suc.prems have now: "check_at table_at a = Inr False" by (metis add_0_right zero_less_Suc)
  from Suc.prems have "\<forall>j<n. check_at table_at (Suc a + j) = Inr False"
    by (metis Suc_less_eq add_Suc_right add_Suc)
  from Suc.IH[OF this] now show ?case
    by (simp add: Let_def failed_attempts_Suc check_at_def)
qed

lemma poll_loop_success:
  "k < n \<Longrightarrow> check_at table_at (a + k) = Inr True \<Longrightarrow>
   (\<forall>j<k. check_at table_at (a + j) = Inr False) \<Longrightarrow>
   poll_loop table_at a n =
     (Inr (a + k, collect_rows (table_at (a + k))), failed_attempts a k @ [QueryRows (a + k)])"
proof (induction k arbitrary: a n)
  case 0
  then obtain m where "n = Suc m" by (cases n) simp_all
  with 0 show ?case by (simp add: Let_def failed_attempts_0 check_at_def)
next
  case (Suc k)
  then obtain m where n: "n = Suc m" and km: "k < m" by (cases n) simp_all
  from Suc.prems have now: "check_at table_at a = Inr False" by (metis add_0_right zero_less_Suc)
  from Suc.prems have ok: "check_at table_at (Suc a + k) = Inr True" by simp
  from Suc.prems have "\<forall>j<k. check_at table_at (Suc a + j) = Inr False"
    by (metis Suc_less_eq add_Suc_right add_Suc)
  from Suc.IH[OF km ok this] now show ?case
    by (simp add: n Let_def failed_attempts_Suc check_at_def)
qed

lemma poll_loop_raises:
  "k < n \<Longrightarrow> check_at table_at (a + k) = Inl e \<Longrightarrow>
   (\<forall>j<k. check_at table_at (a + j) = Inr False) \<Longrightarrow>
   poll_loop table_at a n = (Inl e, failed_attempts a k @ [QueryRows (a + k)])"
proof (induction k arbitrary: a n)
  case 0
  then obtain m where "n = Suc m" by (cases n) simp_all
  with 0 show ?case by (simp add: Let_def failed_attempts_0 check_at_def)
next
  case (Suc k)
  then obtain m where n: "n = Suc m" and km: "k < m" by (cases n) simp_all
  from Suc.prems have now: "check_at table_at a = Inr False" by (metis add_0_right zero_less_Suc)
  from Suc.prems have ok: "check_at table_at (Suc a + k) = Inl e" by simp
  from Suc.prems have "\<forall>j<k. check_at table_at (Suc a + j) = Inr False"
    by (metis Suc_less_eq add_Suc_right add_Suc)
  from Suc.IH[OF km ok this] now show ?case
    by (simp add: n Let_def failed_attempts_Suc check_at_def)
qed

lemma superscript_cell_raises:
  "has_real_data [[td ''Site A'', td [CHR 0xB2]]] = Inl (InvalidLiteral [CHR 0xB2])"
  by (simp add: has_real_data_def total_nonzero_def cell_nonzero_def py_remove_def py_strip_def
      py_isspace_def td_def py_isdigit_def py_isdigit_char_def py_int_def int_strip_def
      int_space_def int_signed_def int_unsigned_def py_isdecimal_char_def max_str_digits_def)

lemma superscript_cell_count: "nonzero_count [[td ''Site A'', td [CHR 0xB2]]] = 0"
  by (simp add: nonzero_count_def data_cells_def positive_literal_def py_remove_def py_strip_def
      py_isspace_def td_def py_isdecimal_char_def)

text \<open>
  While every cell test completes, the loop does what is expected of it: it returns at
  the first populated attempt with no sleep after it, and after 20 unpopulated attempts,
  each followed by a sleep of 3, it takes the screenshot and fails with TableNotPopulated.
\<close>

lemma attempts_failed: "attempts (failed_attempts a n @ evs) = n + attempts evs"
  by (induction n arbitrary: a) (simp_all add: failed_attempts_0 failed_attempts_Suc attempts_def)

lemma sleeps_failed: "sleeps (failed_attempts a n @ evs) = n + sleeps evs"
  by (induction n arbitrary: a) (simp_all add: failed_attempts_0 failed_attempts_Suc sleeps_def)

lemma poller_success_when_checks_complete:
  assumes "1 \<le> k" and "k \<le> max_retries"
    and "check_at table_at (k - 1) = Inr True"
    and "\<forall>j<k - 1. check_at table_at j = Inr False"
  shows "table_poller table_at =
           (Inr (k - 1, collect_rows (table_at (k - 1))),
            failed_attempts 0 (k - 1) @ [QueryRows (k - 1)])
       \<and> attempts (snd (table_poller table_at)) = k
       \<and> sleeps (snd (table_poller table_at)) = k - 1
       \<and> last (snd (table_poller table_at)) = QueryRows (k - 1)"
proof -
  have lt: "k - 1 < max_retries" using assms(1,2) by simp
  have p: "check_at table_at (0 + (k - 1)) = Inr True" using assms(3) by simp
  have n: "\<forall>j<k - 1. check_at table_at (0 + j) = Inr False" using assms(4) by simp
  have r: "table_poller table_at =
           (Inr (0 + (k - 1), collect_rows (table_at (0 + (k - 1)))),
            failed_attempts 0 (k - 1) @ [QueryRows (0 + (k - 1))])"
    unfolding table_poller_def using lt p n by (rule poll_loop_success)
  have a: "attempts (failed_attempts 0 (k - 1) @ [QueryRows (k - 1)]) = k"
    using assms(1) by (simp add: attempts_failed) (simp add: attempts_def)
  have s: "sleeps (failed_attempts 0 (k - 1) @ [QueryRows (k - 1)]) = k - 1"
    by (simp add: sleeps_failed) (simp add: sleeps_def)
  show ?thesis using r a s by simp
qed

lemma poller_exhausted_when_checks_complete:
  assumes "\<forall>j<max_retries. check_at table_at j = Inr False"
  shows "table_poller table_at =
        (Inl TableNotPopulated,
         failed_attempts 0 max_retries @ [Screenshot ''empty_table_debug.png''])
      \<and> attempts (snd (table_poller table_at)) = 20
      \<and> sleeps (snd (table_poller table_at)) = 20"
proof -
  from assms have "\<forall>j<max_retries. check_at table_at (0 + j) = Inr False" by simp
  then have r: "table_poller table_at =
        (Inl TableNotPopulated,
         failed_attempts 0 max_retries @ [Screenshot ''empty_table_debug.png''])"
    unfolding table_poller_def by (rule poll_loop_fail)
  have "attempts (failed_attempts 0 max_retries @ [Screenshot ''empty_table_debug.png'']) = 20"
    by (simp add: attempts_failed) (simp add: attempts_def max_retries_def)
  moreover have "sleeps (failed_attempts 0 max_retries @ [Screenshot ''empty_table_debug.png'']) = 20"
    by (simp add: sleeps_failed) (simp add: sleeps_def max_retries_def)
  ultimately show ?thesis using r by simp
qed

text \<open>
  C5 asks that a table whose populated predicate first holds on attempt \<open>k \<le> 20\<close> is
  returned after exactly \<open>k\<close> attempts. The code does not do so in every case. Here the
  first attempt reads one row whose data cell is a superscript two, which is no integer
  literal, so the predicate of the specification does not hold; the second attempt would
  read ten non-zero cells, so the predicate first holds on attempt 2. The cell passes
  \<open>isdigit()\<close>, \<open>int()\<close> rejects it, and the poller ends on attempt 1 with that error.
\<close>

theorem C5_superscript_cell_raises_before_success:
  "\<not> spec_populated (collect_rows
        ((\<lambda>i. if i = 0
            then \<lparr>th_texts = [], tbody_trs = [[td ''Site A'', td [CHR 0xB2]]], all_trs = []\<rparr>
            else \<lparr>th_texts = [], tbody_trs = [td ''Site A'' # replicate 10 (td ''5'')], all_trs = []\<rparr>) 0))
   \<and> spec_populated (collect_rows
        ((\<lambda>i. if i = 0
            then \<lparr>th_texts = [], tbody_trs = [[td ''Site A'', td [CHR 0xB2]]], all_trs = []\<rparr>
            else \<lparr>th_texts = [], tbody_trs = [td ''Site A'' # replicate 10 (td ''5'')], all_trs = []\<rparr>) (Suc 0)))
   \<and> table_poller
        (\<lambda>i. if i = 0
            then \<lparr>th_texts = [], tbody_trs = [[td ''Site A'', td [CHR 0xB2]]], all_trs = []\<rparr>
            else \<lparr>th_texts = [], tbody_trs = [td ''Site A'' # replicate 10 (td ''5'')], all_trs = []\<rparr>)
      = (Inl (InvalidLiteral [CHR 0xB2]), [QueryRows 0])"
proof -
  let ?t = "\<lambda>i::nat. if i = 0
            then \<lparr>th_texts = [], tbody_trs = [[td ''Site A'', td [CHR 0xB2]]], all_trs = []\<rparr>
            else \<lparr>th_texts = [], tbody_trs = [td ''Site A'' # replicate 10 (td ''5'')], all_trs = []\<rparr>"
  have a: "\<not> spec_populated (collect_rows (?t 0))"
    using spec_threshold_1 by (simp add: spec_populated_def collect_rows_def superscript_cell_count)
  have b: "spec_populated (collect_rows (?t (Suc 0)))"
    using spec_threshold_1 by (simp add: spec_populated_def collect_rows_def ten_cells_count)
  have k: "0 < max_retries" by (simp add: max_retries_def)
  have e: "check_at ?t (0 + 0) = Inl (InvalidLiteral [CHR 0xB2])"
    by (simp add: check_at_def collect_rows_def superscript_cell_raises)
  have n: "\<forall>j<0. check_at ?t (0 + j) = Inr False" by simp
  have "poll_loop ?t 0 max_retries
      = (Inl (InvalidLiteral [CHR 0xB2]), failed_attempts 0 0 @ [QueryRows (0 + 0)])"
    using k e n by (rule poll_loop_raises)
  then have c: "table_poller ?t = (Inl (InvalidLiteral [CHR 0xB2]), [QueryRows 0])"
    by (simp add: table_poller_def failed_attempts_0)
  from a b c show ?thesis by (simp only: simp_thms)
qed

text \<open>
  C6 asks that a table whose populated predicate holds on no attempt is polled exactly
  20 times, with a sleep of 3 between attempts, before TableNotPopulated. The code does
  not do so in every case. Here every attempt reads one row whose data cell is a
  superscript two, so the predicate of the specification never holds; the poller ends on
  attempt 1 with the error of \<open>int()\<close>, with no sleep, no screenshot and no
  TableNotPopulated.
\<close>

theorem C6_superscript_cell_raises_on_first_attempt:
  "\<not> spec_populated (collect_rows
        \<lparr>th_texts = [], tbody_trs = [[td ''Site A'', td [CHR 0xB2]]], all_trs = []\<rparr>)
   \<and> table_poller
        (\<lambda>i. \<lparr>th_texts = [], tbody_trs = [[td ''Site A'', td [CHR 0xB2]]], all_trs = []\<rparr>)
      = (Inl (InvalidLiteral [CHR 0xB2]), [QueryRows 0])"
proof -
  let ?t = "\<lambda>i::nat. \<lparr>th_texts = [], tbody_trs = [[td ''Site A'', td [CHR 0xB2]]], all_trs = []\<rparr>"
  have a: "\<not> spec_populated (collect_rows
        \<lparr>th_texts = [], tbody_trs = [[td ''Site A'', td [CHR 0xB2]]], all_trs = []\<rparr>)"
    using spec_threshold_1 by (simp add: spec_populated_def collect_rows_def superscript_cell_count)
  have k: "0 < max_retries" by (simp add: max_retries_def)
  have e: "check_at ?t (0 + 0) = Inl (InvalidLiteral [CHR 0xB2])"
    by (simp add: check_at_def collect_rows_def superscript_cell_raises)
  have n: "\<forall>j<0. check_at ?t (0 + j) = Inr False" by simp
  have "poll_loop ?t 0 max_retries
      = (Inl (InvalidLiteral [CHR 0xB2]), failed_attempts 0 0 @ [QueryRows (0 + 0)])"
    using k e n by (rule poll_loop_raises)
  then have c: "table_poller ?t = (Inl (InvalidLiteral [CHR 0xB2]), [QueryRows 0])"
    by (simp add: table_poller_def failed_attempts_0)
  from a c show ?thesis by (rule conjI)
qed

end
